theory Spec2Isabelle
  imports Main "HOL-Library.Word"
begin

section \<open>Go values as seen through package reflect\<close>

text \<open>
  The program walks a Go value with package \<^verbatim>\<open>reflect\<close>. The model keeps what the
  program reads of a value: its kind, the fields of a struct with their descriptors,
  the pointee of a pointer, the dynamic value of an interface, and for every
  \<^verbatim>\<open>reflect.Value\<close> the two flags that decide whether \<^verbatim>\<open>Addr\<close> and
  \<^verbatim>\<open>Interface\<close> panic.

  A struct field descriptor (\<^verbatim>\<open>reflect.StructField\<close>) has the declared name, the
  package path (empty exactly for exported fields), the embedding flag and the tag.
  The tag is kept as the list of its key/value pairs; \<open>Get\<close> returns the value of the
  first pair with the key and the empty string when there is none, as
  \<^verbatim>\<open>StructTag.Get\<close> does for a conventionally formatted tag.
\<close>

record StructField =
  Name :: string
  PkgPath :: string
  Anonymous :: bool
  Tag :: "(string \<times> string) list"

definition Get :: "(string \<times> string) list \<Rightarrow> string \<Rightarrow> string" where
  "Get tag key = (case map_of tag key of None \<Rightarrow> [] | Some v \<Rightarrow> v)"

text \<open>
  Go values of the kinds bool, int, string, slice, pointer, interface and struct. A
  pointer is nil or has a pointee, an interface is nil or holds a dynamic value, a
  slice is nil or has elements. The kinds left out (the other numbers, arrays, maps,
  channels, functions) are leaves of the traversal like the scalars and the slice
  here. Values are finite trees: a pointer structure with a cycle, on which the
  traversal of the source does not return, has no representation, and two pointers
  to one pointee are two subtrees.
\<close>

datatype val =
    VBool bool
  | VInt "64 word"
  | VString string
  | VSlice "val list option"
  | VPtr "val option"
  | VIface "val option"
  | VStruct "(StructField \<times> val) list"

datatype kind = Invalid | Bool | IntKind | String | Slice | Ptr | Interface | Struct

text \<open>
  Storage is named by the way to it from the argument of \<open>Flatten\<close>: through a
  pointer or an interface (\<open>ElemStep\<close>) or into field \<open>i\<close> of a struct.
\<close>

datatype step = ElemStep | FieldStep nat

type_synonym loc = "step list"

fun deref :: "val \<Rightarrow> loc \<Rightarrow> val option" where
  "deref v [] = Some v"
| "deref (VPtr (Some v)) (ElemStep # l) = deref v l"
| "deref (VIface (Some v)) (ElemStep # l) = deref v l"
| "deref (VStruct fs) (FieldStep i # l) =
     (if i < length fs then deref (snd (fs ! i)) l else None)"
| "deref _ _ = None"

text \<open>
  A \<^verbatim>\<open>reflect.Value\<close>: the value it holds (\<open>None\<close> for the zero Value, whose kind is
  \<open>Invalid\<close>), where that value is stored, \<^verbatim>\<open>flagAddr\<close> (the value is addressable)
  and \<^verbatim>\<open>flagRO\<close> (the value was reached through an unexported field).
\<close>

record Value =
  held :: "val option"
  at :: loc
  flagAddr :: bool
  flagRO :: bool

datatype panic =
    MustBeStruct
  | AddrOfUnaddressable
  | InterfaceOfUnexported
  | InterfaceOfZeroValue
  | UncomparableType
  | NumFieldOfNonStruct

definition zeroValue :: Value where
  "zeroValue = \<lparr>held = None, at = [], flagAddr = False, flagRO = False\<rparr>"

fun ValueOf :: "val \<Rightarrow> Value" where
  "ValueOf (VIface None) = zeroValue"
| "ValueOf (VIface (Some v)) = ValueOf v"
| "ValueOf v = \<lparr>held = Some v, at = [], flagAddr = False, flagRO = False\<rparr>"

definition Kind :: "Value \<Rightarrow> kind" where
  "Kind v = (case held v of
       None \<Rightarrow> Invalid
     | Some (VBool _) \<Rightarrow> Bool
     | Some (VInt _) \<Rightarrow> IntKind
     | Some (VString _) \<Rightarrow> String
     | Some (VSlice _) \<Rightarrow> Slice
     | Some (VPtr _) \<Rightarrow> Ptr
     | Some (VIface _) \<Rightarrow> Interface
     | Some (VStruct _) \<Rightarrow> Struct)"

text \<open>
  \<^verbatim>\<open>Value.Elem\<close>: the pointee of a pointer is addressable and inherits \<^verbatim>\<open>flagRO\<close>;
  the dynamic value of an interface inherits \<^verbatim>\<open>flagRO\<close> and is not addressable; a
  nil pointer and a nil interface give the zero Value. On the other kinds
  \<^verbatim>\<open>Elem\<close> panics; the program calls it under a test for \<open>Ptr\<close> or \<open>Interface\<close> only,
  and the model gives the zero Value there.
\<close>

definition Elem :: "Value \<Rightarrow> Value" where
  "Elem v = (case held v of
       Some (VPtr (Some p)) \<Rightarrow>
         \<lparr>held = Some p, at = at v @ [ElemStep], flagAddr = True, flagRO = flagRO v\<rparr>
     | Some (VIface (Some x)) \<Rightarrow>
         \<lparr>held = Some x, at = at v @ [ElemStep], flagAddr = False, flagRO = flagRO v\<rparr>
     | _ \<Rightarrow> zeroValue)"

definition fieldsOf :: "Value \<Rightarrow> (StructField \<times> val) list" where
  "fieldsOf v = (case held v of Some (VStruct fs) \<Rightarrow> fs | _ \<Rightarrow> [])"

definition NumField :: "Value \<Rightarrow> nat" where
  "NumField v = length (fieldsOf v)"

text \<open>\<^verbatim>\<open>v.Type().Field(i)\<close>, for \<open>i < NumField v\<close>.\<close>

definition TypeField :: "Value \<Rightarrow> nat \<Rightarrow> StructField" where
  "TypeField v i = fst (fieldsOf v ! i)"

text \<open>
  \<^verbatim>\<open>v.Field(i)\<close>, for \<open>i < NumField v\<close>: the field shares the struct's storage and its
  addressability, and is read-only when the struct is or the field is unexported.
\<close>

definition Field :: "Value \<Rightarrow> nat \<Rightarrow> Value" where
  "Field v i =
     \<lparr>held = Some (snd (fieldsOf v ! i)), at = at v @ [FieldStep i],
      flagAddr = flagAddr v,
      flagRO = (flagRO v \<or> PkgPath (TypeField v i) \<noteq> [])\<rparr>"

text \<open>
  \<^verbatim>\<open>v.Addr().Interface()\<close>: a pointer to the storage of \<open>v\<close>. \<^verbatim>\<open>Addr\<close> panics on a
  value that is not addressable, \<^verbatim>\<open>Interface\<close> on one reached through an unexported
  field.
\<close>

definition AddrInterface :: "Value \<Rightarrow> panic + loc" where
  "AddrInterface v =
     (if \<not> flagAddr v then Inl AddrOfUnaddressable
      else if flagRO v then Inl InterfaceOfUnexported
      else Inr (at v))"

subsection \<open>Comparison with the zero value\<close>

text \<open>
  Go compares two interface values of one dynamic type by that type's equality, and
  panics when the type is not comparable: a slice type, or a struct type with a field
  of such a type. Pointer and interface types are comparable. \<open>comparable\<close> decides
  this from a value of the type.
\<close>

fun comparable :: "val \<Rightarrow> bool" where
  "comparable (VSlice _) = False"
| "comparable (VStruct fs) = (\<forall>fv \<in> set fs. comparable (snd fv))"
| "comparable _ = True"

text \<open>
  \<open>isZero v\<close>: a value of a comparable type is equal to the zero value of its type.
  Struct equality compares the fields that are not named \<^verbatim>\<open>_\<close>.
\<close>

fun isZero :: "val \<Rightarrow> bool" where
  "isZero (VBool b) = (\<not> b)"
| "isZero (VInt n) = (n = 0)"
| "isZero (VString s) = (s = [])"
| "isZero (VSlice x) = (x = None)"
| "isZero (VPtr p) = (p = None)"
| "isZero (VIface x) = (x = None)"
| "isZero (VStruct fs) = (\<forall>fv \<in> set fs. Name (fst fv) = ''_'' \<or> isZero (snd fv))"

section \<open>The program\<close>

text \<open>
  \<^verbatim>\<open>isEmptyValue\<close> is \<^verbatim>\<open>v.Interface() == reflect.Zero(v.Type()).Interface()\<close>.
  \<^verbatim>\<open>v.Interface()\<close> panics on a read-only value. For a value of interface kind it
  returns the dynamic value, and the zero value of an interface type is nil, so the
  comparison is true exactly for a nil interface. For any other kind both operands
  have the type of \<open>v\<close>: the comparison panics when that type is not comparable.
\<close>

definition isEmptyValue :: "Value \<Rightarrow> panic + bool" where
  "isEmptyValue v =
     (if flagRO v then Inl InterfaceOfUnexported
      else case held v of
        None \<Rightarrow> Inl InterfaceOfZeroValue
      | Some (VIface x) \<Rightarrow> Inr (x = None)
      | Some x \<Rightarrow> if comparable x then Inr (isZero x) else Inl UncomparableType)"

text \<open>\<^verbatim>\<open>strings.SplitN(s, ",", 2)\<close>: \<open>s\<close> cut at its first comma, if it has one.\<close>

definition SplitN2 :: "string \<Rightarrow> string list" where
  "SplitN2 s =
     (case dropWhile (\<lambda>c. c \<noteq> CHR '','') s of
        [] \<Rightarrow> [s]
      | _ # rest \<Rightarrow> [takeWhile (\<lambda>c. c \<noteq> CHR '','') s, rest])"

fun HasPrefix :: "string \<Rightarrow> string \<Rightarrow> bool" where
  "HasPrefix s [] = True"
| "HasPrefix [] (p # ps) = False"
| "HasPrefix (c # cs) (p # ps) = (c = p \<and> HasPrefix cs ps)"

text \<open>\<^verbatim>\<open>strings.Contains(s, substr)\<close>.\<close>

fun Contains :: "string \<Rightarrow> string \<Rightarrow> bool" where
  "Contains [] sub = (sub = [])"
| "Contains (c # cs) sub = (HasPrefix (c # cs) sub \<or> Contains cs sub)"

definition keyForField :: "StructField \<Rightarrow> Value \<Rightarrow> panic + (string \<times> bool)" where
  "keyForField field v =
     (let tag = Get (Tag field) ''json'';
          fallthrough = (if Anonymous field then Inr ([], True) else Inr (Name field, False))
      in if tag \<noteq> [] then
           (let tokens = SplitN2 tag;
                name = tokens ! 0;
                opts = (if length tokens > 1 then tokens ! 1 else [])
            in if name = ''-'' then Inr ([], False)
               else if Contains opts ''omitempty'' then
                 (case isEmptyValue v of
                    Inl e \<Rightarrow> Inl e
                  | Inr isEmpty \<Rightarrow>
                      if isEmpty then Inr ([], False)
                      else if name \<noteq> [] then Inr (name, False)
                      else fallthrough)
               else if name \<noteq> [] then Inr (name, False)
               else fallthrough)
         else fallthrough)"

definition sizeV :: "Value \<Rightarrow> nat" where
  "sizeV v = (case held v of None \<Rightarrow> 0 | Some x \<Rightarrow> size x)"

function extractValue :: "Value \<Rightarrow> Value \<Rightarrow> Value" where
  "extractValue val fallback =
     (case Kind val of
        Struct \<Rightarrow> val
      | Ptr \<Rightarrow> extractValue (Elem val) fallback
      | Interface \<Rightarrow> extractValue (Elem val) fallback
      | _ \<Rightarrow> fallback)"
  by pat_completeness auto
termination
  by (relation "measure (\<lambda>(v, f). sizeV v)")
     (auto simp: Kind_def Elem_def sizeV_def zeroValue_def split: option.splits val.splits)


declare extractValue.simps [simp del]

lemma sizeV_Elem: "sizeV (Elem v) \<le> sizeV v"
  by (auto simp: Elem_def sizeV_def zeroValue_def split: option.splits val.splits)

lemma sizeV_extractValue: "sizeV (extractValue c f) \<le> max (sizeV c) (sizeV f)"
proof (induction c f rule: extractValue.induct)
  case (1 val fallback)
  show ?case
  proof (cases "Kind val")
    case Ptr
    then have "extractValue val fallback = extractValue (Elem val) fallback"
      by (simp add: extractValue.simps [of val])
    with 1(1) Ptr sizeV_Elem [of val] show ?thesis by simp
  next
    case Interface
    then have "extractValue val fallback = extractValue (Elem val) fallback"
      by (simp add: extractValue.simps [of val])
    with 1(2) Interface sizeV_Elem [of val] show ?thesis by simp
  qed (simp_all add: extractValue.simps [of val])
qed

lemma size_field_less:
  assumes "i < length fs"
  shows "size (snd (fs ! i)) < Suc (size_list (size_prod (\<lambda>_. 0) size) fs)"
proof -
  have "fs ! i \<in> set fs"
    using assms by simp
  then have "size_prod (\<lambda>_. 0) size (fs ! i) \<le> size_list (size_prod (\<lambda>_. 0) size) fs"
    by (simp add: size_list_estimation')
  moreover have "size (snd (fs ! i)) < Suc (size_prod (\<lambda>_. 0) size (fs ! i))"
    by (cases "fs ! i") simp
  ultimately show ?thesis by linarith
qed

lemma sizeV_Field: "i < NumField v \<Longrightarrow> sizeV (Field v i) < sizeV v"
  by (auto simp: NumField_def fieldsOf_def Field_def sizeV_def size_field_less
           split: option.splits val.splits)

lemma sizeV_child:
  "i < NumField val \<Longrightarrow> sizeV (extractValue (Field val i) (Field val i)) < sizeV val"
  using sizeV_extractValue [of "Field val i" "Field val i"] sizeV_Field [of i val]
  by simp

type_synonym Map = "string \<rightharpoonup> loc"

text \<open>
  \<^verbatim>\<open>recursiveFlatten\<close> writes into the map it is given and returns the number of
  entries it added; the model returns the map as well. \<open>fieldLoop\<close> is the
  \<^verbatim>\<open>for\<close> loop of the source from index \<open>i\<close> on, with the current value of
  \<^verbatim>\<open>added\<close>.
\<close>

function recursiveFlatten :: "Value \<Rightarrow> string \<Rightarrow> Map \<Rightarrow> panic + (Map \<times> nat)"
  and fieldLoop :: "Value \<Rightarrow> nat \<Rightarrow> string \<Rightarrow> Map \<Rightarrow> nat \<Rightarrow> panic + (Map \<times> nat)" where
  "recursiveFlatten val prefix output =
     (if Kind val = Struct then fieldLoop val 0 prefix output 0
      else Inl NumFieldOfNonStruct)"
| "fieldLoop val i prefix output added =
     (if i < NumField val then
        (let child = Field val i;
             childType = TypeField val i
         in case keyForField childType child of
              Inl e \<Rightarrow> Inl e
            | Inr (key, anonymous) \<Rightarrow>
                if PkgPath childType \<noteq> [] \<or> (key = [] \<and> \<not> anonymous) then
                  fieldLoop val (i + 1) prefix output added
                else
                  (let child' = extractValue child child;
                       childPrefix = (if \<not> anonymous then prefix @ key @ ''.'' else [])
                   in if Kind child' = Struct then
                        (case recursiveFlatten child' childPrefix output of
                           Inl e \<Rightarrow> Inl e
                         | Inr (output', childAdded) \<Rightarrow>
                             if childAdded \<noteq> 0 then
                               fieldLoop val (i + 1) prefix output' (added + childAdded)
                             else
                               (case AddrInterface child' of
                                  Inl e \<Rightarrow> Inl e
                                | Inr p \<Rightarrow>
                                    fieldLoop val (i + 1) prefix
                                      (output'(prefix @ key \<mapsto> p)) (added + 1)))
                      else
                        (case AddrInterface child' of
                           Inl e \<Rightarrow> Inl e
                         | Inr p \<Rightarrow>
                             fieldLoop val (i + 1) prefix
                               (output(prefix @ key \<mapsto> p)) (added + 1))))
      else Inr (output, added))"
  by pat_completeness auto
termination
  by (relation "inv_image (less_than <*lex*> less_than)
        (\<lambda>x. case x of
            Inl (v, _, _) \<Rightarrow> (sizeV v, NumField v + 1)
          | Inr (v, i, _, _, _) \<Rightarrow> (sizeV v, NumField v - i))")
     (auto simp: wf_lex_prod sizeV_child diff_less_mono2)

text \<open>
  \<^verbatim>\<open>flattenValue\<close>; the map of the source is created empty before the traversal and
  returned whatever the count is.
\<close>

function flattenValue :: "Value \<Rightarrow> panic + Map" where
  "flattenValue val =
     (if Kind val = Ptr then flattenValue (Elem val)
      else if Kind val \<noteq> Struct then Inl MustBeStruct
      else case recursiveFlatten val [] Map.empty of
             Inl e \<Rightarrow> Inl e
           | Inr (m, _) \<Rightarrow> Inr m)"
  by pat_completeness auto
termination
  by (relation "measure sizeV")
     (auto simp: Kind_def Elem_def sizeV_def zeroValue_def split: option.splits val.splits)

declare recursiveFlatten.simps [simp del] fieldLoop.simps [simp del] flattenValue.simps [simp del]

definition Flatten :: "val \<Rightarrow> panic + Map" where
  "Flatten val = flattenValue (ValueOf val)"

section \<open>The entries of a traversal\<close>

text \<open>
  The traversal described without the map and the counter: the entries a call
  registers, in the order in which it registers them. Each field of the composite
  contributes nothing when it is skipped; otherwise the entries of its extracted
  composite when there is at least one, and else one entry at \<open>prefix @ key\<close> that
  refers to the storage of the extracted value. The entries of the composite are
  those of its fields, in declaration order. The child prefix is the one of the
  source.
\<close>

type_synonym entry = "string \<times> loc"

fun collect :: "(panic + 'a list) list \<Rightarrow> panic + 'a list" where
  "collect [] = Inr []"
| "collect (Inl e # rs) = Inl e"
| "collect (Inr es # rs) =
     (case collect rs of Inl e \<Rightarrow> Inl e | Inr rest \<Rightarrow> Inr (es @ rest))"

function entries :: "Value \<Rightarrow> string \<Rightarrow> panic + entry list"
  and contribution :: "Value \<Rightarrow> string \<Rightarrow> nat \<Rightarrow> panic + entry list" where
  "entries val prefix =
     (if Kind val = Struct then collect (map (contribution val prefix) [0..<NumField val])
      else Inl NumFieldOfNonStruct)"
| "contribution val prefix i =
     (if i < NumField val then
        (case keyForField (TypeField val i) (Field val i) of
           Inl e \<Rightarrow> Inl e
         | Inr (key, anonymous) \<Rightarrow>
             if PkgPath (TypeField val i) \<noteq> [] \<or> (key = [] \<and> \<not> anonymous) then Inr []
             else
               (let extracted = extractValue (Field val i) (Field val i);
                    childPrefix = (if \<not> anonymous then prefix @ key @ ''.'' else [])
                in case (if Kind extracted = Struct then entries extracted childPrefix
                         else Inr []) of
                     Inl e \<Rightarrow> Inl e
                   | Inr nested \<Rightarrow>
                       if nested \<noteq> [] then Inr nested
                       else
                         (case AddrInterface extracted of
                            Inl e \<Rightarrow> Inl e
                          | Inr p \<Rightarrow> Inr [(prefix @ key, p)])))
      else Inr [])"
  by pat_completeness auto
termination
  by (relation "inv_image (less_than <*lex*> less_than)
        (\<lambda>x. case x of
            Inl (v, _) \<Rightarrow> (sizeV v, 1)
          | Inr (v, _, i) \<Rightarrow> (sizeV v, 0))")
     (auto simp: wf_lex_prod sizeV_child)

declare entries.simps [simp del] contribution.simps [simp del]

text \<open>The entries of the fields from index \<open>i\<close> on.\<close>

definition entriesFrom :: "Value \<Rightarrow> string \<Rightarrow> nat \<Rightarrow> panic + entry list" where
  "entriesFrom val prefix i = collect (map (contribution val prefix) [i..<NumField val])"

text \<open>Writing a list of entries into a map, first to last.\<close>

definition store :: "entry list \<Rightarrow> Map \<Rightarrow> Map" where
  "store es m = fold (\<lambda>(k, p) m. m(k \<mapsto> p)) es m"


section \<open>Tags\<close>

text \<open>
  The two parts of a field's \<^verbatim>\<open>json\<close> tag as \<^verbatim>\<open>keyForField\<close> computes them: the
  name before the first comma and the options after it. \<open>Split\<close> cuts a string at
  every occurrence of a separator, and \<open>optionTokens\<close> the options at every comma.
\<close>

definition jsonName :: "StructField \<Rightarrow> string" where
  "jsonName field = SplitN2 (Get (Tag field) ''json'') ! 0"

definition jsonOpts :: "StructField \<Rightarrow> string" where
  "jsonOpts field =
     (let tokens = SplitN2 (Get (Tag field) ''json'')
      in if length tokens > 1 then tokens ! 1 else [])"

fun Split :: "char \<Rightarrow> string \<Rightarrow> string list" where
  "Split sep [] = [[]]"
| "Split sep (c # cs) =
     (if c = sep then [] # Split sep cs
      else case Split sep cs of
             [] \<Rightarrow> [[c]]
           | t # ts \<Rightarrow> (c # t) # ts)"

definition optionTokens :: "string \<Rightarrow> string list" where
  "optionTokens opts = Split CHR '','' opts"

section \<open>Notions of the specification\<close>

text \<open>
  Field \<open>i\<close> of \<open>v\<close> is traversed, with resolved key \<open>key\<close> and promotion flag
  \<open>anon\<close>: it is exported and \<^verbatim>\<open>keyForField\<close> does not answer "skip".
\<close>

definition accessible :: "Value \<Rightarrow> nat \<Rightarrow> string \<Rightarrow> bool \<Rightarrow> bool" where
  "accessible v i key anon \<longleftrightarrow>
     i < NumField v \<and> keyForField (TypeField v i) (Field v i) = Inr (key, anon) \<and>
     PkgPath (TypeField v i) = [] \<and> (key \<noteq> [] \<or> anon)"


text \<open>The input after following its pointers, as \<^verbatim>\<open>flattenValue\<close> does.\<close>

function dereferenced :: "Value \<Rightarrow> Value" where
  "dereferenced v = (if Kind v = Ptr then dereferenced (Elem v) else v)"
  by pat_completeness auto
termination
  by (relation "measure sizeV")
     (auto simp: Kind_def Elem_def sizeV_def zeroValue_def split: option.splits val.splits)

declare dereferenced.simps [simp del]

text \<open>
  \<open>B\<close> is the \<^verbatim>\<open>reflect.Value\<close> \<open>A\<close> seen from a root that is \<open>pre\<close> further away: the
  same value and read-only flag, the storage moved by \<open>pre\<close>, addressable where \<open>A\<close>
  is.
\<close>

definition moved :: "loc \<Rightarrow> Value \<Rightarrow> Value \<Rightarrow> bool" where
  "moved pre A B \<longleftrightarrow>
     (if held A = None then B = A
      else held B = held A \<and> flagRO B = flagRO A \<and> at B = pre @ at A \<and>
           (flagAddr A \<longrightarrow> flagAddr B))"

text \<open>
  A value on which the traversal meets none of the panics of package
  \<^verbatim>\<open>reflect\<close> once it is reached through a pointer: every field whose tag asks for
  \<^verbatim>\<open>omitempty\<close> is exported and of interface or comparable type, and no interface
  holds a struct by value. Only the values of exported fields are looked at.
\<close>

fun traversable :: "val \<Rightarrow> bool" where
  "traversable (VStruct fs) =
     (\<forall>fx \<in> set fs.
        (jsonName (fst fx) \<noteq> ''-'' \<and> Contains (jsonOpts (fst fx)) ''omitempty'' \<longrightarrow>
           PkgPath (fst fx) = [] \<and>
           (case snd fx of VIface _ \<Rightarrow> True | x \<Rightarrow> comparable x)) \<and>
        (PkgPath (fst fx) = [] \<longrightarrow> traversable (snd fx)))"
| "traversable (VPtr (Some x)) = traversable x"
| "traversable (VIface (Some x)) = ((case x of VStruct _ \<Rightarrow> False | _ \<Rightarrow> True) \<and> traversable x)"
| "traversable _ = True"

text \<open>A \<^verbatim>\<open>reflect.Value\<close> that is addressable, not read-only and holds such a value.\<close>

definition good :: "Value \<Rightarrow> bool" where
  "good v \<longleftrightarrow> flagAddr v \<and> \<not> flagRO v \<and> (\<exists>y. held v = Some y \<and> traversable y)"

text \<open>
  A field satisfies omit-if-empty: its tag has the option, as \<^verbatim>\<open>keyForField\<close> looks
  for it, and its value is the zero value of its type.
\<close>

definition omits :: "StructField \<Rightarrow> val \<Rightarrow> bool" where
  "omits f x \<longleftrightarrow> Contains (jsonOpts f) ''omitempty'' \<and> isZero x"

text \<open>
  Two values of one type: of the same kind, structs with the same field
  descriptors, tags included, and fields of one type. The pointees of two
  pointers are compared when both are there; the type of an interface says
  nothing about what it holds.
\<close>

fun sameType :: "val \<Rightarrow> val \<Rightarrow> bool" where
  "sameType (VBool _) (VBool _) = True"
| "sameType (VInt _) (VInt _) = True"
| "sameType (VString _) (VString _) = True"
| "sameType (VSlice _) (VSlice _) = True"
| "sameType (VPtr (Some x)) (VPtr (Some y)) = sameType x y"
| "sameType (VPtr _) (VPtr _) = True"
| "sameType (VIface _) (VIface _) = True"
| "sameType (VStruct fs) (VStruct gs) =
     list_all2 (\<lambda>fx gy. fst fx = fst gy \<and> sameType (snd fx) (snd gy)) fs gs"
| "sameType _ _ = False"

text \<open>The same fields satisfy omit-if-empty in both values.\<close>

fun sameOmitted :: "val \<Rightarrow> val \<Rightarrow> bool" where
  "sameOmitted (VPtr (Some x)) (VPtr (Some y)) = sameOmitted x y"
| "sameOmitted (VIface (Some x)) (VIface (Some y)) = sameOmitted x y"
| "sameOmitted (VStruct fs) (VStruct gs) =
     list_all2 (\<lambda>fx gy. omits (fst fx) (snd fx) = omits (fst gy) (snd gy) \<and>
                  sameOmitted (snd fx) (snd gy)) fs gs"
| "sameOmitted _ _ = True"

text \<open>
  The same pointers and interfaces are nil in both values, and two interfaces that
  are not nil hold values of one type.
\<close>

fun sameNil :: "val \<Rightarrow> val \<Rightarrow> bool" where
  "sameNil (VPtr p) (VPtr q) =
     (case (p, q) of
        (None, None) \<Rightarrow> True
      | (Some x, Some y) \<Rightarrow> sameNil x y
      | _ \<Rightarrow> False)"
| "sameNil (VIface p) (VIface q) =
     (case (p, q) of
        (None, None) \<Rightarrow> True
      | (Some x, Some y) \<Rightarrow> sameType x y \<and> sameNil x y
      | _ \<Rightarrow> False)"
| "sameNil (VStruct fs) (VStruct gs) = list_all2 (\<lambda>fx gy. sameNil (snd fx) (snd gy)) fs gs"
| "sameNil _ _ = True"

text \<open>The key set of a result of \<open>Flatten\<close>.\<close>

definition keysOf :: "panic + Map \<Rightarrow> panic + string set" where
  "keysOf r = (case r of Inl e \<Rightarrow> Inl e | Inr m \<Rightarrow> Inr (dom m))"

text \<open>
  The three relations together, and two \<^verbatim>\<open>reflect.Value\<close>s that hold such values in
  the same storage with the same flags.
\<close>

definition alike :: "val \<Rightarrow> val \<Rightarrow> bool" where
  "alike x y \<longleftrightarrow> sameType x y \<and> sameOmitted x y \<and> sameNil x y"

definition alikeV :: "Value \<Rightarrow> Value \<Rightarrow> bool" where
  "alikeV A B \<longleftrightarrow>
     at B = at A \<and> flagAddr B = flagAddr A \<and> flagRO B = flagRO A \<and>
     rel_option alike (held A) (held B)"

text \<open>
  \<open>reach root names v\<close>: the composite \<open>v\<close> is reached from \<open>root\<close> through traversed
  fields whose extracted values are composites; \<open>names\<close> are the resolved names of the
  named fields on the way, in nesting order. A promotion group adds no name.
\<close>

inductive reach :: "Value \<Rightarrow> string list \<Rightarrow> Value \<Rightarrow> bool" for root where
  reach_root: "reach root [] root"
| reach_field:
    "reach root names v \<Longrightarrow> accessible v i key anon \<Longrightarrow>
     c = extractValue (Field v i) (Field v i) \<Longrightarrow> Kind c = Struct \<Longrightarrow>
     reach root (if anon then names else names @ [key]) c"

code_pred reach .

text \<open>
  \<open>registeredAt root names key c\<close>: \<open>c\<close> is the extracted value of a traversed field
  with resolved key \<open>key\<close> of a composite reached under \<open>names\<close>, and it is a leaf: no
  composite, or a composite that contributes no entries.
\<close>

definition registeredAt :: "Value \<Rightarrow> string list \<Rightarrow> string \<Rightarrow> Value \<Rightarrow> bool" where
  "registeredAt root names key c \<longleftrightarrow>
     (\<exists>v i anon. reach root names v \<and> accessible v i key anon \<and>
        c = extractValue (Field v i) (Field v i) \<and>
        (Kind c = Struct \<longrightarrow> entries c [] = Inr []))"

text \<open>The names of a path and the key of its last field, joined by dots.\<close>

definition keyOf :: "string list \<Rightarrow> string \<Rightarrow> string" where
  "keyOf names key = concat (map (\<lambda>n. n @ ''.'') names) @ key"

text \<open>The dot-separated segments of a key.\<close>

definition segments :: "string \<Rightarrow> string list" where
  "segments k = Split CHR ''.'' k"

text \<open>
  A field that \<^verbatim>\<open>keyForField\<close> can answer to be a promotion group: embedded, and
  without a name in its tag.
\<close>

definition promotable :: "StructField \<Rightarrow> bool" where
  "promotable f \<longleftrightarrow> Anonymous f \<and> jsonName f = []"

text \<open>
  In the value, no such field lies inside a named field; \<open>named\<close> says whether the
  value itself does.
\<close>

fun noPromotionUnder :: "bool \<Rightarrow> val \<Rightarrow> bool" where
  "noPromotionUnder named (VStruct fs) =
     (\<forall>fx \<in> set fs.
        (promotable (fst fx) \<longrightarrow> \<not> named) \<and>
        noPromotionUnder (named \<or> \<not> promotable (fst fx)) (snd fx))"
| "noPromotionUnder named (VPtr (Some x)) = noPromotionUnder named x"
| "noPromotionUnder named (VIface (Some x)) = noPromotionUnder named x"
| "noPromotionUnder named _ = True"

section \<open>Example values\<close>

text \<open>Field descriptors: exported and named, with a \<^verbatim>\<open>json\<close> tag, and embedded.\<close>

definition exported :: "string \<Rightarrow> StructField" where
  "exported n = \<lparr>Name = n, PkgPath = [], Anonymous = False, Tag = []\<rparr>"

definition tagged :: "string \<Rightarrow> string \<Rightarrow> StructField" where
  "tagged n t = \<lparr>Name = n, PkgPath = [], Anonymous = False, Tag = [(''json'', t)]\<rparr>"

text \<open>
  \<^verbatim>\<open>type Point struct{X, Y int}\<close> and
  \<^verbatim>\<open>type Shape struct{ Point `json:"pt"`; Color string }\<close>, with the value
  \<^verbatim>\<open>Shape{Point{1, 2}, "red"}\<close>.
\<close>

definition Point :: val where
  "Point = VStruct [(exported ''X'', VInt 1), (exported ''Y'', VInt 2)]"

definition Shape :: val where
  "Shape = VStruct
     [(\<lparr>Name = ''Point'', PkgPath = [], Anonymous = True, Tag = [(''json'', ''pt'')]\<rparr>, Point),
      (exported ''Color'', VString ''red'')]"

text \<open>
  \<^verbatim>\<open>type Inner struct{N int}\<close>, \<^verbatim>\<open>type Mid struct{ Inner; L string }\<close> and
  \<^verbatim>\<open>type Outer struct{M Mid}\<close>, with the value \<^verbatim>\<open>Outer{Mid{Inner{1}, "x"}}\<close>.
\<close>

definition embedded :: "string \<Rightarrow> StructField" where
  "embedded n = \<lparr>Name = n, PkgPath = [], Anonymous = True, Tag = []\<rparr>"

definition Inner :: val where
  "Inner = VStruct [(exported ''N'', VInt 1)]"

definition Mid :: val where
  "Mid = VStruct [(embedded ''Inner'', Inner), (exported ''L'', VString ''x'')]"

definition Outer :: val where
  "Outer = VStruct [(exported ''M'', Mid)]"

text \<open>\<^verbatim>\<open>type Linked struct{P *Inner}\<close> with the value \<^verbatim>\<open>Linked{&Inner{1}}\<close>.\<close>

definition Linked :: val where
  "Linked = VStruct [(exported ''P'', VPtr (Some Inner))]"

text \<open>\<^verbatim>\<open>type Post struct{ Tags []string `json:"tags,omitempty"` }\<close> with no tags.\<close>

definition Post :: val where
  "Post = VStruct [(tagged ''Tags'' ''tags,omitempty'', VSlice None)]"

text \<open>\<^verbatim>\<open>type Twice struct{ A int `json:"x"`; B int `json:"x"` }\<close> with \<^verbatim>\<open>Twice{1, 2}\<close>.\<close>

definition Twice :: val where
  "Twice = VStruct [(tagged ''A'' ''x'', VInt 1), (tagged ''B'' ''x'', VInt 2)]"

text \<open>\<^verbatim>\<open>type Dotted struct{ A int `json:"a.b"` }\<close> with \<^verbatim>\<open>Dotted{1}\<close>.\<close>

definition Dotted :: val where
  "Dotted = VStruct [(tagged ''A'' ''a.b'', VInt 1)]"

text \<open>\<^verbatim>\<open>type Holder struct{P *int}\<close> with \<^verbatim>\<open>P\<close> left nil.\<close>

definition Holder :: val where
  "Holder = VStruct [(exported ''P'', VPtr None)]"

text \<open>\<^verbatim>\<open>type Empty struct{}\<close> embedded in \<^verbatim>\<open>type Wrapper struct{ Empty; Label string }\<close>.\<close>

definition Wrapper :: val where
  "Wrapper = VStruct [(embedded ''Empty'', VStruct []), (exported ''Label'', VString ''a'')]"

section \<open>Properties of the traversal\<close>

subsection \<open>Strings and tags\<close>

lemma HasPrefix_iff: "HasPrefix s p \<longleftrightarrow> (\<exists>b. s = p @ b)"
  by (induction s p rule: HasPrefix.induct) auto

lemma Contains_iff: "Contains s sub \<longleftrightarrow> (\<exists>a b. s = a @ sub @ b)"
proof (induction s)
  case Nil
  then show ?case by simp
next
  case (Cons c cs)
  show ?case
  proof
    assume "Contains (c # cs) sub"
    then consider "HasPrefix (c # cs) sub" | "Contains cs sub" by auto
    then show "\<exists>a b. c # cs = a @ sub @ b"
    proof cases
      case 1
      then obtain b where "c # cs = sub @ b" by (auto simp: HasPrefix_iff)
      then have "c # cs = [] @ sub @ b" by simp
      then show ?thesis by blast
    next
      case 2
      then obtain a b where "cs = a @ sub @ b" using Cons.IH by auto
      then have "c # cs = (c # a) @ sub @ b" by simp
      then show ?thesis by blast
    qed
  next
    assume "\<exists>a b. c # cs = a @ sub @ b"
    then obtain a b where ab: "c # cs = a @ sub @ b" by auto
    show "Contains (c # cs) sub"
    proof (cases a)
      case Nil
      with ab have "HasPrefix (c # cs) sub" by (auto simp: HasPrefix_iff)
      then show ?thesis by simp
    next
      case (Cons x a')
      with ab have "cs = a' @ sub @ b" by simp
      then have "Contains cs sub" using Cons.IH by auto
      then show ?thesis by simp
    qed
  qed
qed

lemma Split_nonempty: "Split sep s \<noteq> []"
  by (induction s) (auto split: list.splits)

lemma Split_hd: "\<exists>b. s = hd (Split sep s) @ b"
  by (induction s) (auto split: list.splits)

lemma Split_infix: "t \<in> set (Split sep s) \<Longrightarrow> \<exists>a b. s = a @ t @ b"
proof (induction s arbitrary: t)
  case Nil
  then show ?case by simp
next
  case (Cons c cs)
  show ?case
  proof (cases "c = sep")
    case True
    with Cons.prems have "t = [] \<or> t \<in> set (Split sep cs)" by simp
    then show ?thesis
    proof
      assume "t = []"
      then have "c # cs = [] @ t @ (c # cs)" by simp
      then show ?thesis by blast
    next
      assume "t \<in> set (Split sep cs)"
      then obtain a b where "cs = a @ t @ b" using Cons.IH by blast
      then have "c # cs = (c # a) @ t @ b" by simp
      then show ?thesis by blast
    qed
  next
    case False
    obtain t0 ts where ts: "Split sep cs = t0 # ts"
      using Split_nonempty [of sep cs] by (cases "Split sep cs") auto
    with False Cons.prems have "t = c # t0 \<or> t \<in> set ts" by simp
    then show ?thesis
    proof
      assume t: "t = c # t0"
      obtain b where "cs = t0 @ b" using Split_hd [of cs sep] ts by auto
      with t have "c # cs = [] @ t @ b" by simp
      then show ?thesis by blast
    next
      assume "t \<in> set ts"
      then have "t \<in> set (Split sep cs)" using ts by simp
      then obtain a b where "cs = a @ t @ b" using Cons.IH by blast
      then have "c # cs = (c # a) @ t @ b" by simp
      then show ?thesis by blast
    qed
  qed
qed

lemma token_Contains: "t \<in> set (optionTokens s) \<Longrightarrow> Contains s t"
  by (simp add: Contains_iff optionTokens_def Split_infix)

lemma Split_no_separator: "sep \<notin> set s \<Longrightarrow> Split sep s = [s]"
  by (induction s) auto

lemma Split_at_separator:
  "sep \<notin> set n \<Longrightarrow> Split sep (n @ sep # rest) = n # Split sep rest"
  by (induction n) auto

lemma keyForField_tagged:
  assumes "Get (Tag field) ''json'' \<noteq> []"
  shows "keyForField field v =
     (if jsonName field = ''-'' then Inr ([], False)
      else if Contains (jsonOpts field) ''omitempty'' then
        (case isEmptyValue v of
           Inl e \<Rightarrow> Inl e
         | Inr isEmpty \<Rightarrow>
             if isEmpty then Inr ([], False)
             else if jsonName field \<noteq> [] then Inr (jsonName field, False)
             else if Anonymous field then Inr ([], True) else Inr (Name field, False))
      else if jsonName field \<noteq> [] then Inr (jsonName field, False)
      else if Anonymous field then Inr ([], True) else Inr (Name field, False))"
  using assms by (simp add: keyForField_def jsonName_def jsonOpts_def Let_def split: sum.split)

subsection \<open>The loop writes the entries\<close>

lemma store_Nil [simp]: "store [] m = m"
  by (simp add: store_def)

lemma store_append [simp]: "store (xs @ ys) m = store ys (store xs m)"
  by (simp add: store_def)

lemma store_Cons [simp]: "store ((k, p) # es) m = store es (m(k \<mapsto> p))"
  by (simp add: store_def)

lemma store_single [simp]: "store [(k, p)] m = m(k \<mapsto> p)"
  by (simp add: store_def)

lemmas fieldLoop_unfold = fieldLoop.simps [unfolded Let_def]
lemmas contribution_unfold = contribution.simps [unfolded Let_def]

lemma entries_eq:
  "entries val prefix =
     (if Kind val = Struct then entriesFrom val prefix 0 else Inl NumFieldOfNonStruct)"
  by (simp add: entries.simps [of val] entriesFrom_def)

lemma entriesFrom_simps:
  "entriesFrom val prefix i =
     (if i < NumField val then
        (case contribution val prefix i of
           Inl e \<Rightarrow> Inl e
         | Inr es \<Rightarrow>
             (case entriesFrom val prefix (i + 1) of
                Inl e \<Rightarrow> Inl e
              | Inr rest \<Rightarrow> Inr (es @ rest)))
      else Inr [])"
  by (cases "contribution val prefix i") (simp_all add: entriesFrom_def upt_conv_Cons)

lemma traversal_entries:
  "recursiveFlatten val prefix out =
     (case entries val prefix of Inl e \<Rightarrow> Inl e | Inr es \<Rightarrow> Inr (store es out, length es))"
  "fieldLoop val i prefix out added =
     (case entriesFrom val prefix i of
        Inl e \<Rightarrow> Inl e
      | Inr es \<Rightarrow> Inr (store es out, added + length es))"
proof (induction val prefix out and val i prefix out added rule: recursiveFlatten_fieldLoop.induct)
  case (1 val prefix out)
  then show ?case
    by (simp add: recursiveFlatten.simps [of val] entries_eq [of val] split: sum.split)
next
  case (2 val i prefix out added)
  show ?case
  proof (cases "i < NumField val")
    case False
    then show ?thesis
      by (simp add: fieldLoop_unfold [of val i] entriesFrom_simps [of val _ i])
  next
    case True
    show ?thesis
    proof (cases "keyForField (TypeField val i) (Field val i)")
      case (Inl e)
      with True show ?thesis
        by (simp add: fieldLoop_unfold [of val i] entriesFrom_simps [of val _ i]
            contribution_unfold [of val _ i])
    next
      case (Inr ka)
      obtain key anon where ka: "ka = (key, anon)" by (cases ka)
      note kf = Inr [unfolded ka]
      define child where "child = extractValue (Field val i) (Field val i)"
      define cp where "cp = (if \<not> anon then prefix @ key @ ''.'' else [])"
      show ?thesis
      proof (cases "PkgPath (TypeField val i) \<noteq> [] \<or> key = [] \<and> \<not> anon")
        case skip: True
        have "fieldLoop val i prefix out added = fieldLoop val (i + 1) prefix out added"
          using True kf skip by (simp add: fieldLoop_unfold [of val i])
        moreover have "contribution val prefix i = Inr []"
          using True kf skip by (simp add: contribution_unfold [of val _ i])
        ultimately show ?thesis
          using True 2(1) [OF True refl refl kf refl skip]
          by (simp add: entriesFrom_simps [of val _ i] split: sum.split)
      next
        case nskip: False
        show ?thesis
        proof (cases "Kind child = Struct")
          case notStruct: False
          show ?thesis
          proof (cases "AddrInterface child")
            case (Inl e)
            have "fieldLoop val i prefix out added = Inl e"
              using True kf nskip notStruct Inl
              by (auto simp add: fieldLoop_unfold [of val i] child_def)
            moreover have "contribution val prefix i = Inl e"
              using True kf nskip notStruct Inl
              by (auto simp add: contribution_unfold [of val _ i] child_def)
            ultimately show ?thesis
              using True by (simp add: entriesFrom_simps [of val _ i])
          next
            case (Inr p)
            have "fieldLoop val i prefix out added =
                  fieldLoop val (i + 1) prefix (out(prefix @ key \<mapsto> p)) (added + 1)"
              using True kf nskip notStruct Inr
              by (auto simp add: fieldLoop_unfold [of val i] child_def)
            moreover have "contribution val prefix i = Inr [(prefix @ key, p)]"
              using True kf nskip notStruct Inr
              by (auto simp add: contribution_unfold [of val _ i] child_def)
            moreover have "fieldLoop val (i + 1) prefix (out(prefix @ key \<mapsto> p)) (added + 1) =
                (case entriesFrom val prefix (i + 1) of
                   Inl e \<Rightarrow> Inl e
                 | Inr es \<Rightarrow> Inr (store es (out(prefix @ key \<mapsto> p)), added + 1 + length es))"
              by (rule 2(5) [OF True refl refl kf refl nskip refl refl
                    notStruct [unfolded child_def] Inr [unfolded child_def]])
            ultimately show ?thesis
              using True
              by (simp add: entriesFrom_simps [of val _ i] split: sum.split)
          qed
        next
          case isStruct: True
          note rec = 2(2) [OF True refl refl kf refl nskip refl refl isStruct [unfolded child_def],
              folded child_def cp_def]
          show ?thesis
          proof (cases "entries child cp")
            case (Inl e)
            have "fieldLoop val i prefix out added = Inl e"
              using True kf nskip isStruct Inl rec
              by (auto simp add: fieldLoop_unfold [of val i] child_def cp_def)
            moreover have "contribution val prefix i = Inl e"
              using True kf nskip isStruct Inl
              by (auto simp add: contribution_unfold [of val _ i] child_def cp_def)
            ultimately show ?thesis
              using True by (simp add: entriesFrom_simps [of val _ i])
          next
            case (Inr nested)
            have rf: "recursiveFlatten child cp out = Inr (store nested out, length nested)"
              using rec Inr by simp
            show ?thesis
            proof (cases "nested = []")
              case nonempty: False
              have "fieldLoop val i prefix out added =
                    fieldLoop val (i + 1) prefix (store nested out) (added + length nested)"
                using True kf nskip isStruct rf nonempty
                by (auto simp add: fieldLoop_unfold [of val i] child_def cp_def)
              moreover have "contribution val prefix i = Inr nested"
                using True kf nskip isStruct Inr nonempty
                by (auto simp add: contribution_unfold [of val _ i] child_def cp_def)
              moreover have "length nested \<noteq> 0"
                using nonempty by simp
              then have "fieldLoop val (i + 1) prefix (store nested out) (added + length nested) =
                  (case entriesFrom val prefix (i + 1) of
                     Inl e \<Rightarrow> Inl e
                   | Inr es \<Rightarrow>
                       Inr (store es (store nested out), added + length nested + length es))"
                by (rule 2(3) [OF True refl refl kf refl nskip refl refl
                      isStruct [unfolded child_def] rf [unfolded child_def cp_def] refl])
              ultimately show ?thesis
                using True
                by (simp add: entriesFrom_simps [of val _ i] split: sum.split)
            next
              case empty: True
              have rf0: "recursiveFlatten child cp out = Inr (out, 0)"
                using rf empty by simp
              show ?thesis
              proof (cases "AddrInterface child")
                case (Inl e)
                have "fieldLoop val i prefix out added = Inl e"
                  using True kf nskip isStruct rf empty Inl
                  by (auto simp add: fieldLoop_unfold [of val i] child_def cp_def)
                moreover have "contribution val prefix i = Inl e"
                  using True kf nskip isStruct \<open>entries child cp = Inr nested\<close> empty Inl
                  by (auto simp add: contribution_unfold [of val _ i] child_def cp_def)
                ultimately show ?thesis
                  using True by (simp add: entriesFrom_simps [of val _ i])
              next
                case (Inr p)
                have "fieldLoop val i prefix out added =
                      fieldLoop val (i + 1) prefix (out(prefix @ key \<mapsto> p)) (added + 1)"
                  using True kf nskip isStruct rf empty Inr
                  by (auto simp add: fieldLoop_unfold [of val i] child_def cp_def)
                moreover have "contribution val prefix i = Inr [(prefix @ key, p)]"
                  using True kf nskip isStruct \<open>entries child cp = Inr nested\<close> empty Inr
                  by (auto simp add: contribution_unfold [of val _ i] child_def cp_def)
                moreover have "fieldLoop val (i + 1) prefix (out(prefix @ key \<mapsto> p)) (added + 1) =
                    (case entriesFrom val prefix (i + 1) of
                       Inl e \<Rightarrow> Inl e
                     | Inr es \<Rightarrow>
                         Inr (store es (out(prefix @ key \<mapsto> p)), added + 1 + length es))"
                  by (rule 2(4) [OF True refl refl kf refl nskip refl refl
                        isStruct [unfolded child_def] rf0 [unfolded child_def cp_def] refl _
                        Inr [unfolded child_def]]) simp
                ultimately show ?thesis
                  using True
                  by (simp add: entriesFrom_simps [of val _ i] split: sum.split)
              qed
            qed
          qed
        qed
      qed
    qed
  qed
qed

lemmas eval_simps = Flatten_def flattenValue.simps recursiveFlatten.simps fieldLoop.simps
  extractValue.simps keyForField_def isEmptyValue_def Kind_def Elem_def Field_def TypeField_def
  NumField_def fieldsOf_def AddrInterface_def zeroValue_def Get_def SplitN2_def Let_def

lemmas example_defs = exported_def embedded_def tagged_def Point_def Shape_def
  Inner_def Mid_def Outer_def Holder_def Wrapper_def Linked_def Post_def Twice_def Dotted_def

subsection \<open>Induction on nested composites\<close>

lemma struct_induct [case_names child]:
  assumes "\<And>val. (\<And>i. i < NumField val \<Longrightarrow> P (extractValue (Field val i) (Field val i))) \<Longrightarrow> P val"
  shows "P val"
proof (induction val rule: measure_induct_rule [of sizeV])
  case (less v)
  show ?case
    by (rule assms) (simp add: less sizeV_child)
qed

subsection \<open>Collecting the contributions of the fields\<close>

lemma collect_Inr_mem:
  "collect rs = Inr es \<Longrightarrow> x \<in> set es \<Longrightarrow> \<exists>cs. Inr cs \<in> set rs \<and> x \<in> set cs"
proof (induction rs arbitrary: es)
  case Nil
  then show ?case by simp
next
  case (Cons r rs)
  show ?case
  proof (cases r)
    case (Inl e)
    with Cons.prems show ?thesis by simp
  next
    case (Inr cs)
    with Cons.prems obtain rest where rest: "collect rs = Inr rest" "es = cs @ rest"
      by (auto split: sum.splits)
    with Cons.prems(2) have "x \<in> set cs \<or> x \<in> set rest" by simp
    then show ?thesis
    proof
      assume "x \<in> set cs"
      with Inr show ?thesis by auto
    next
      assume "x \<in> set rest"
      with Cons.IH [OF rest(1)] show ?thesis by auto
    qed
  qed
qed

lemma collect_Inr_sub:
  "collect rs = Inr es \<Longrightarrow> Inr cs \<in> set rs \<Longrightarrow> set cs \<subseteq> set es"
proof (induction rs arbitrary: es)
  case Nil
  then show ?case by simp
next
  case (Cons r rs)
  show ?case
  proof (cases r)
    case (Inl e)
    with Cons.prems show ?thesis by simp
  next
    case (Inr cs')
    with Cons.prems obtain rest where rest: "collect rs = Inr rest" "es = cs' @ rest"
      by (auto split: sum.splits)
    from Cons.prems(2) Inr have "cs = cs' \<or> Inr cs \<in> set rs" by auto
    then show ?thesis
    proof
      assume "cs = cs'"
      with rest show ?thesis by simp
    next
      assume "Inr cs \<in> set rs"
      with Cons.IH [OF rest(1)] rest show ?thesis by auto
    qed
  qed
qed

lemma collect_Inr_all: "collect rs = Inr es \<Longrightarrow> r \<in> set rs \<Longrightarrow> \<exists>cs. r = Inr cs"
proof (induction rs arbitrary: es)
  case Nil
  then show ?case by simp
next
  case (Cons r' rs)
  then show ?case
    by (cases r') (auto split: sum.splits)
qed

lemma collect_Inl_mem: "collect rs = Inl e \<Longrightarrow> Inl e \<in> set rs"
proof (induction rs)
  case Nil
  then show ?case by simp
next
  case (Cons r rs)
  then show ?case
    by (cases r) (auto split: sum.splits)
qed

lemma collect_all_Inr: "\<forall>r \<in> set rs. \<exists>cs. r = Inr cs \<Longrightarrow> \<exists>es. collect rs = Inr es"
proof (induction rs)
  case Nil
  then show ?case by simp
next
  case (Cons r rs)
  then obtain cs es where "r = Inr cs" "collect rs = Inr es" by auto
  then show ?case by simp
qed

lemma collect_map_rel:
  assumes "\<And>i cs. i \<in> set xs \<Longrightarrow> f i = Inr cs \<Longrightarrow> g i = Inr (map h cs)"
    and "collect (map f xs) = Inr es"
  shows "collect (map g xs) = Inr (map h es)"
  using assms
proof (induction xs arbitrary: es)
  case Nil
  then show ?case by simp
next
  case (Cons x xs)
  from Cons.prems(2) obtain cs rest where
    cs: "f x = Inr cs" and rest: "collect (map f xs) = Inr rest" and es: "es = cs @ rest"
    by (cases "f x") (auto split: sum.splits)
  have "g x = Inr (map h cs)"
    using Cons.prems(1) cs by simp
  moreover have "collect (map g xs) = Inr (map h rest)"
    using Cons.IH [OF _ rest] Cons.prems(1) by simp
  ultimately show ?case
    using es by simp
qed

lemma entries_mem:
  assumes "entries val prefix = Inr es" and "x \<in> set es"
  shows "\<exists>i cs. i < NumField val \<and> contribution val prefix i = Inr cs \<and> x \<in> set cs"
proof -
  from assms(1) have "collect (map (contribution val prefix) [0..<NumField val]) = Inr es"
    by (simp add: entries.simps [of val] split: if_splits)
  from collect_Inr_mem [OF this assms(2)] obtain cs where
    "Inr cs \<in> set (map (contribution val prefix) [0..<NumField val])" "x \<in> set cs"
    by blast
  then obtain i where "i < NumField val" "contribution val prefix i = Inr cs"
    by auto
  with \<open>x \<in> set cs\<close> show ?thesis by blast
qed

lemma entries_sub:
  assumes "entries val prefix = Inr es" and "i < NumField val"
  shows "\<exists>cs. contribution val prefix i = Inr cs \<and> set cs \<subseteq> set es"
proof -
  from assms(1) have c: "collect (map (contribution val prefix) [0..<NumField val]) = Inr es"
    by (simp add: entries.simps [of val] split: if_splits)
  have "contribution val prefix i \<in> set (map (contribution val prefix) [0..<NumField val])"
    using assms(2) by simp
  from collect_Inr_all [OF c this] obtain cs where cs: "contribution val prefix i = Inr cs"
    by auto
  then have "Inr cs \<in> set (map (contribution val prefix) [0..<NumField val])"
    using assms(2) by (metis (no_types) \<open>contribution val prefix i \<in> _\<close>)
  from collect_Inr_sub [OF c this] cs show ?thesis by auto
qed

lemma entries_Inl:
  assumes "entries val prefix = Inl e" and "Kind val = Struct"
  shows "\<exists>i. i < NumField val \<and> contribution val prefix i = Inl e"
proof -
  from assms have "collect (map (contribution val prefix) [0..<NumField val]) = Inl e"
    by (simp add: entries.simps [of val])
  from collect_Inl_mem [OF this] obtain i where
    "i < NumField val" "contribution val prefix i = Inl e"
    by auto
  then show ?thesis by blast
qed

lemma entries_success:
  assumes "Kind val = Struct"
    and "\<And>i. i < NumField val \<Longrightarrow> \<exists>cs. contribution val prefix i = Inr cs"
  shows "\<exists>es. entries val prefix = Inr es"
proof -
  have "\<forall>r \<in> set (map (contribution val prefix) [0..<NumField val]). \<exists>cs. r = Inr cs"
    using assms(2) by auto
  from collect_all_Inr [OF this] assms(1) show ?thesis
    by (simp add: entries.simps [of val])
qed


subsection \<open>The contribution of one field\<close>

lemma AddrInterface_at: "AddrInterface c = Inr p \<Longrightarrow> p = at c"
  by (auto simp: AddrInterface_def split: if_splits)

lemma contribution_skipped:
  assumes "i < NumField val"
    and "keyForField (TypeField val i) (Field val i) = Inr (key, anon)"
    and "PkgPath (TypeField val i) \<noteq> [] \<or> key = [] \<and> \<not> anon"
  shows "contribution val prefix i = Inr []"
  using assms by (auto simp: contribution_unfold [of val _ i])

lemma contribution_accessible:
  assumes "accessible val i key anon"
  shows "contribution val prefix i =
     (case (if Kind (extractValue (Field val i) (Field val i)) = Struct
            then entries (extractValue (Field val i) (Field val i))
                   (if \<not> anon then prefix @ key @ ''.'' else [])
            else Inr []) of
        Inl e \<Rightarrow> Inl e
      | Inr nested \<Rightarrow>
          if nested \<noteq> [] then Inr nested
          else (case AddrInterface (extractValue (Field val i) (Field val i)) of
                  Inl e \<Rightarrow> Inl e
                | Inr p \<Rightarrow> Inr [(prefix @ key, p)]))"
  using assms by (auto simp: accessible_def contribution_unfold [of val _ i])

lemma contribution_Inr_cases:
  assumes "contribution val prefix i = Inr cs" and "cs \<noteq> []"
  obtains key anon where "accessible val i key anon"
    and "Kind (extractValue (Field val i) (Field val i)) = Struct"
    and "entries (extractValue (Field val i) (Field val i))
           (if \<not> anon then prefix @ key @ ''.'' else []) = Inr cs"
  | key anon where "accessible val i key anon"
    and "Kind (extractValue (Field val i) (Field val i)) = Struct \<longrightarrow>
         entries (extractValue (Field val i) (Field val i))
           (if \<not> anon then prefix @ key @ ''.'' else []) = Inr []"
    and "AddrInterface (extractValue (Field val i) (Field val i)) =
           Inr (at (extractValue (Field val i) (Field val i)))"
    and "cs = [(prefix @ key, at (extractValue (Field val i) (Field val i)))]"
proof -
  from assms have i: "i < NumField val"
    by (auto simp: contribution.simps [of val _ i] split: if_splits)
  from assms i obtain key anon where
    kf: "keyForField (TypeField val i) (Field val i) = Inr (key, anon)"
    by (cases "keyForField (TypeField val i) (Field val i)")
       (auto simp: contribution_unfold [of val _ i])
  have nskip: "\<not> (PkgPath (TypeField val i) \<noteq> [] \<or> key = [] \<and> \<not> anon)"
  proof
    assume "PkgPath (TypeField val i) \<noteq> [] \<or> key = [] \<and> \<not> anon"
    from contribution_skipped [OF i kf this, of prefix] assms show False by simp
  qed
  then have acc: "accessible val i key anon"
    using i kf by (auto simp: accessible_def)
  define c where "c = extractValue (Field val i) (Field val i)"
  define cp where "cp = (if \<not> anon then prefix @ key @ ''.'' else [])"
  note eq = contribution_accessible [OF acc, of prefix, folded c_def cp_def]
  show thesis
  proof (cases "Kind c = Struct")
    case True
    with eq assms(1) obtain nested where nested: "entries c cp = Inr nested"
      by (cases "entries c cp") auto
    show ?thesis
    proof (cases "nested = []")
      case False
      with eq assms(1) True nested have "cs = nested" by simp
      with that(1) [OF acc] True nested show ?thesis
        by (simp add: c_def cp_def)
    next
      case empty: True
      with eq assms(1) True nested obtain p where p: "AddrInterface c = Inr p"
        by (cases "AddrInterface c") auto
      then have "p = at c" by (rule AddrInterface_at)
      with eq assms(1) True nested empty p have "cs = [(prefix @ key, at c)]" by simp
      with that(2) [OF acc] True nested empty p \<open>p = at c\<close> show ?thesis
        by (simp add: c_def cp_def)
    qed
  next
    case False
    with eq assms(1) obtain p where p: "AddrInterface c = Inr p"
      by (cases "AddrInterface c") auto
    then have "p = at c" by (rule AddrInterface_at)
    with eq assms(1) False p have "cs = [(prefix @ key, at c)]" by simp
    with that(2) [OF acc] False p \<open>p = at c\<close> show ?thesis
      by (simp add: c_def cp_def)
  qed
qed

lemma contribution_empty_iff:
  "contribution val prefix i = Inr [] \<longleftrightarrow>
     (i < NumField val \<longrightarrow>
        (\<exists>key anon. keyForField (TypeField val i) (Field val i) = Inr (key, anon) \<and>
           (PkgPath (TypeField val i) \<noteq> [] \<or> key = [] \<and> \<not> anon)))"
proof (cases "i < NumField val")
  case False
  then show ?thesis by (simp add: contribution.simps [of val _ i])
next
  case True
  show ?thesis
  proof (cases "keyForField (TypeField val i) (Field val i)")
    case (Inl e)
    with True show ?thesis by (simp add: contribution.simps [of val _ i])
  next
    case (Inr ka)
    obtain key anon where ka: "ka = (key, anon)" by (cases ka)
    note kf = Inr [unfolded ka]
    show ?thesis
    proof (cases "PkgPath (TypeField val i) \<noteq> [] \<or> key = [] \<and> \<not> anon")
      case skip: True
      with contribution_skipped [OF True kf skip] kf show ?thesis by auto
    next
      case False
      then have acc: "accessible val i key anon"
        using True kf by (auto simp: accessible_def)
      have "contribution val prefix i \<noteq> Inr []"
        by (auto simp: contribution_accessible [OF acc] split: sum.splits if_splits)
      with False kf True show ?thesis by auto
    qed
  qed
qed

lemma entries_empty_prefix:
  assumes "entries val p = Inr []"
  shows "entries val q = Inr []"
proof -
  from assms have k: "Kind val = Struct"
    by (simp add: entries.simps [of val] split: if_splits)
  have c: "contribution val q i = Inr []" if "i < NumField val" for i
  proof -
    from entries_sub [OF assms that] have "contribution val p i = Inr []" by auto
    then show ?thesis by (simp add: contribution_empty_iff)
  qed
  from entries_success [OF k, of q] c obtain es where es: "entries val q = Inr es" by blast
  have "es = []"
  proof (rule ccontr)
    assume "es \<noteq> []"
    then obtain x where "x \<in> set es" by (cases es) auto
    from entries_mem [OF es this] c show False by auto
  qed
  with es show ?thesis by simp
qed

subsection \<open>The entry point\<close>

lemma flattenValue_dereferenced:
  "flattenValue v =
     (if Kind (dereferenced v) \<noteq> Struct then Inl MustBeStruct
      else case recursiveFlatten (dereferenced v) [] Map.empty of
             Inl e \<Rightarrow> Inl e
           | Inr (m, _) \<Rightarrow> Inr m)"
proof (induction v rule: dereferenced.induct)
  case (1 v)
  show ?case
  proof (cases "Kind v = Ptr")
    case True
    with 1 show ?thesis
      by (simp add: flattenValue.simps [of v] dereferenced.simps [of v])
  next
    case False
    then show ?thesis
      by (simp add: flattenValue.simps [of v] dereferenced.simps [of v])
  qed
qed

lemma Flatten_entries:
  "Flatten v =
     (if Kind (dereferenced (ValueOf v)) \<noteq> Struct then Inl MustBeStruct
      else case entries (dereferenced (ValueOf v)) [] of
             Inl e \<Rightarrow> Inl e
           | Inr es \<Rightarrow> Inr (store es Map.empty))"
  by (simp add: Flatten_def flattenValue_dereferenced traversal_entries split: sum.split)

lemma store_dom: "dom (store es m) = dom m \<union> fst ` set es"
  by (induction es arbitrary: m) (auto simp: store_def)

lemma store_lookup: "store es m k = Some l \<Longrightarrow> m k = Some l \<or> (k, l) \<in> set es"
proof (induction es arbitrary: m)
  case Nil
  then show ?case by simp
next
  case (Cons e es)
  obtain a b where e: "e = (a, b)" by (cases e)
  with Cons.prems have "store es (m(a \<mapsto> b)) k = Some l" by simp
  from Cons.IH [OF this] e show ?case
    by (auto split: if_splits)
qed

subsection \<open>Unwrapping\<close>







lemma fieldLoop_entries_step:
  assumes "i < NumField val" and "contribution val prefix i = Inr cs"
  shows "fieldLoop val i prefix out added =
         fieldLoop val (i + 1) prefix (store cs out) (added + length cs)"
  using assms
  by (simp add: traversal_entries(2) [of val i] traversal_entries(2) [of val "Suc i"]
      entriesFrom_simps [of val _ i] split: sum.split)

lemma collect_Inr_iff: "collect rs = Inr es \<longleftrightarrow> (\<exists>css. rs = map Inr css \<and> es = concat css)"
proof (induction rs arbitrary: es)
  case Nil
  then show ?case by auto
next
  case (Cons r rs)
  show ?case
  proof (cases r)
    case (Inl e)
    then show ?thesis by auto
  next
    case (Inr cs)
    show ?thesis
    proof
      assume "collect (r # rs) = Inr es"
      with Inr obtain rest where rest: "collect rs = Inr rest" "es = cs @ rest"
        by (auto split: sum.splits)
      with Cons.IH [of rest] obtain css where "rs = map Inr css" "rest = concat css" by auto
      with Inr rest have "r # rs = map Inr (cs # css) \<and> es = concat (cs # css)" by simp
      then show "\<exists>css. r # rs = map Inr css \<and> es = concat css"
        by (rule exI [of _ "cs # css"])
    next
      assume "\<exists>css. r # rs = map Inr css \<and> es = concat css"
      then show "collect (r # rs) = Inr es"
      proof (elim exE conjE)
        fix css
        assume css: "r # rs = map Inr css" "es = concat css"
        then obtain c css' where c: "css = c # css'" by (cases css) auto
        with css Inr have "c = cs" "rs = map Inr css'" by auto
        with Cons.IH [of "concat css'"] have "collect rs = Inr (concat css')" by auto
        with Inr c css \<open>c = cs\<close> show "collect (r # rs) = Inr es" by simp
      qed
    qed
  qed
qed

subsection \<open>The same value further from the root\<close>

lemma moved_held: "moved pre A B \<Longrightarrow> held B = held A"
  by (auto simp: moved_def split: if_splits)

lemma moved_flagRO: "moved pre A B \<Longrightarrow> flagRO B = flagRO A"
  by (auto simp: moved_def split: if_splits)

lemma moved_Kind: "moved pre A B \<Longrightarrow> Kind B = Kind A"
  by (simp add: moved_held Kind_def)

lemma moved_NumField: "moved pre A B \<Longrightarrow> NumField B = NumField A"
  by (simp add: moved_held NumField_def fieldsOf_def)

lemma moved_TypeField: "moved pre A B \<Longrightarrow> TypeField B i = TypeField A i"
  by (simp add: moved_held TypeField_def fieldsOf_def)

lemma moved_Field: "moved pre A B \<Longrightarrow> i < NumField A \<Longrightarrow> moved pre (Field A i) (Field B i)"
  by (auto simp: moved_def Field_def TypeField_def fieldsOf_def NumField_def split: if_splits)

lemma moved_Elem: "moved pre A B \<Longrightarrow> moved pre (Elem A) (Elem B)"
  by (auto simp: moved_def Elem_def zeroValue_def split: option.splits val.splits)

lemma moved_keyForField:
  assumes "moved pre A B"
  shows "keyForField f B = keyForField f A"
proof -
  have e: "isEmptyValue B = isEmptyValue A"
    using assms by (simp add: moved_held moved_flagRO isEmptyValue_def)
  show ?thesis
    unfolding keyForField_def e by (rule refl)
qed

lemma moved_extractValue:
  "moved pre A B \<Longrightarrow> moved pre F G \<Longrightarrow> moved pre (extractValue A F) (extractValue B G)"
proof (induction A F arbitrary: B rule: extractValue.induct)
  case (1 val fallback)
  note k = moved_Kind [OF 1(3)]
  note e = moved_Elem [OF 1(3)]
  show ?case
  proof (cases "Kind val")
    case Ptr
    with 1(1) [OF Ptr e 1(4)] k show ?thesis
      by (simp add: extractValue.simps [of val] extractValue.simps [of B])
  next
    case Interface
    with 1(2) [OF Interface e 1(4)] k show ?thesis
      by (simp add: extractValue.simps [of val] extractValue.simps [of B])
  qed (use 1(3,4) k in \<open>simp_all add: extractValue.simps [of val] extractValue.simps [of B]\<close>)
qed

lemma moved_AddrInterface:
  "moved pre A B \<Longrightarrow> held A \<noteq> None \<Longrightarrow> AddrInterface A = Inr p \<Longrightarrow>
   AddrInterface B = Inr (pre @ p)"
  by (auto simp: moved_def AddrInterface_def split: if_splits)

lemma extractValue_valid: "held F \<noteq> None \<Longrightarrow> held (extractValue A F) \<noteq> None"
proof (induction A F rule: extractValue.induct)
  case (1 val fallback)
  show ?case
  proof (cases "Kind val")
    case Struct
    then show ?thesis
      by (auto simp: extractValue.simps [of val] Kind_def split: option.splits)
  qed (use 1 in \<open>simp_all add: extractValue.simps [of val]\<close>)
qed

lemma moved_accessible: "moved pre A B \<Longrightarrow> accessible B i key anon = accessible A i key anon"
  using moved_keyForField [OF moved_Field, of pre A B i]
  by (auto simp: accessible_def moved_NumField moved_TypeField)

lemma moved_entries:
  "moved pre A B \<Longrightarrow> entries A p = Inr es \<Longrightarrow>
   entries B p = Inr (map (\<lambda>(k, l). (k, pre @ l)) es)"
proof (induction A arbitrary: B p es rule: struct_induct)
  case (child A)
  let ?h = "\<lambda>(k, l). (k, pre @ l)"
  note m = child.prems(1)
  from child.prems(2) have k: "Kind A = Struct"
    and c: "collect (map (contribution A p) [0..<NumField A]) = Inr es"
    by (simp_all add: entries.simps [of A] split: if_splits)
  have step: "contribution B p i = Inr (map ?h cs)"
    if i: "i \<in> set [0..<NumField A]" and cs: "contribution A p i = Inr cs" for i cs
  proof (cases "cs = []")
    case True
    with cs i have "contribution B p i = Inr []"
      using moved_keyForField [OF moved_Field [OF m], of i]
      by (simp add: contribution_empty_iff moved_NumField [OF m] moved_TypeField [OF m])
    with True show ?thesis by simp
  next
    case False
    define cA where "cA = extractValue (Field A i) (Field A i)"
    define cB where "cB = extractValue (Field B i) (Field B i)"
    have mf: "moved pre (Field A i) (Field B i)"
      using i by (intro moved_Field m) simp
    have mc: "moved pre cA cB"
      unfolding cA_def cB_def by (intro moved_extractValue mf)
    from cs False show ?thesis
    proof (cases rule: contribution_Inr_cases)
      case (1 key anon)
      from i have "i < NumField A" by simp
      from child.IH [OF this mc [unfolded cA_def] 1(3)]
      have "entries cB (if \<not> anon then p @ key @ ''.'' else []) = Inr (map ?h cs)"
        by (simp add: cB_def)
      moreover have "accessible B i key anon"
        using 1(1) by (simp add: moved_accessible [OF m])
      moreover have "Kind cB = Struct"
        using 1(2) moved_Kind [OF mc] by (simp add: cA_def)
      ultimately show ?thesis
        using False by (simp add: contribution_accessible cB_def [symmetric])
    next
      case (2 key anon)
      have acc: "accessible B i key anon"
        using 2(1) by (simp add: moved_accessible [OF m])
      have "held cA \<noteq> None"
        unfolding cA_def by (rule extractValue_valid) (simp add: Field_def)
      then have a: "AddrInterface cB = Inr (pre @ at cA)"
        using moved_AddrInterface [OF mc] 2(3) by (simp add: cA_def)
      show ?thesis
      proof (cases "Kind cA = Struct")
        case True
        with 2(2) have "entries cA (if \<not> anon then p @ key @ ''.'' else []) = Inr []"
          by (simp add: cA_def)
        from child.IH [OF _ mc [unfolded cA_def] this [unfolded cA_def]] i
        have "entries cB (if \<not> anon then p @ key @ ''.'' else []) = Inr []"
          by (simp add: cB_def)
        with a 2(4) show ?thesis
          by (simp add: contribution_accessible [OF acc] cB_def [symmetric] cA_def [symmetric])
      next
        case False
        then have "Kind cB \<noteq> Struct"
          using moved_Kind [OF mc] by simp
        with a 2(4) show ?thesis
          by (simp add: contribution_accessible [OF acc] cB_def [symmetric] cA_def [symmetric])
      qed
    qed
  qed
  have "collect (map (contribution B p) [0..<NumField A]) = Inr (map ?h es)"
    by (rule collect_map_rel [OF step c])
  then show ?case
    using k by (simp add: entries.simps [of B] moved_Kind [OF m] moved_NumField [OF m])
qed

lemma store_moved:
  "store (map (\<lambda>(k, l). (k, f l)) es) (\<lambda>k. map_option f (m k)) =
   (\<lambda>k. map_option f (store es m k))"
proof (induction es arbitrary: m)
  case Nil
  then show ?case by simp
next
  case (Cons e es)
  obtain k l where e: "e = (k, l)" by (cases e)
  have "(\<lambda>k'. map_option f (m k'))(k \<mapsto> f l) = (\<lambda>k'. map_option f ((m(k \<mapsto> l)) k'))"
    by (rule ext) simp
  then have "store (map (\<lambda>(k, l). (k, f l)) (e # es)) (\<lambda>k. map_option f (m k)) =
      store (map (\<lambda>(k, l). (k, f l)) es) (\<lambda>k'. map_option f ((m(k \<mapsto> l)) k'))"
    unfolding e by (simp only: list.map prod.case store_Cons)
  also have "\<dots> = (\<lambda>k'. map_option f (store es (m(k \<mapsto> l)) k'))"
    by (rule Cons.IH)
  also have "\<dots> = (\<lambda>k'. map_option f (store (e # es) m k'))"
    unfolding e by (simp only: store_Cons)
  finally show ?case .
qed


lemma dereferenced_Ptr: "Kind v = Ptr \<Longrightarrow> dereferenced v = dereferenced (Elem v)"
  by (simp add: dereferenced.simps [of v])

lemma dereferenced_other: "Kind v \<noteq> Ptr \<Longrightarrow> dereferenced v = v"
  by (simp add: dereferenced.simps [of v])

lemma Flatten_struct:
  "Flatten (VStruct fs) =
     (case entries \<lparr>held = Some (VStruct fs), at = [], flagAddr = False, flagRO = False\<rparr> [] of
        Inl e \<Rightarrow> Inl e
      | Inr es \<Rightarrow> Inr (store es Map.empty))"
  by (simp add: Flatten_entries dereferenced_other Kind_def)

lemma Flatten_pointer_to_struct:
  "Flatten (VPtr (Some (VStruct fs))) =
     (case entries \<lparr>held = Some (VStruct fs), at = [ElemStep], flagAddr = True, flagRO = False\<rparr> [] of
        Inl e \<Rightarrow> Inl e
      | Inr es \<Rightarrow> Inr (store es Map.empty))"
  by (simp add: Flatten_entries dereferenced_Ptr dereferenced_other Kind_def Elem_def)

subsection \<open>Panics\<close>

lemma isEmptyValue_panics:
  "isEmptyValue v = Inl e \<Longrightarrow>
   e = InterfaceOfUnexported \<or> e = InterfaceOfZeroValue \<or> e = UncomparableType"
  by (auto simp: isEmptyValue_def split: if_splits option.splits val.splits)

lemma keyForField_panics:
  "keyForField f v = Inl e \<Longrightarrow>
   e = InterfaceOfUnexported \<or> e = InterfaceOfZeroValue \<or> e = UncomparableType"
  by (auto simp: keyForField_def Let_def isEmptyValue_panics split: if_splits sum.splits)

lemma keyForField_untagged:
  "Get (Tag f) ''json'' = [] \<Longrightarrow>
   keyForField f v = (if Anonymous f then Inr ([], True) else Inr (Name f, False))"
  by (simp add: keyForField_def)

lemma keyForField_total:
  assumes "jsonName f \<noteq> ''-'' \<and> Contains (jsonOpts f) ''omitempty'' \<longrightarrow>
           (\<exists>b. isEmptyValue v = Inr b)"
  shows "\<exists>key anon. keyForField f v = Inr (key, anon)"
proof (cases "Get (Tag f) ''json'' = []")
  case True
  then show ?thesis by (cases "Anonymous f") (auto simp: keyForField_untagged)
next
  case False
  with assms show ?thesis
    by (cases "Anonymous f") (auto simp: keyForField_tagged)
qed

lemma AddrInterface_panics:
  "AddrInterface v = Inl e \<Longrightarrow> e = AddrOfUnaddressable \<or> e = InterfaceOfUnexported"
  by (auto simp: AddrInterface_def split: if_splits)

lemma contribution_Inl_cases:
  assumes "contribution val prefix i = Inl e"
  obtains "keyForField (TypeField val i) (Field val i) = Inl e"
  | key anon where "accessible val i key anon"
      and "Kind (extractValue (Field val i) (Field val i)) = Struct"
      and "entries (extractValue (Field val i) (Field val i))
             (if \<not> anon then prefix @ key @ ''.'' else []) = Inl e"
  | "AddrInterface (extractValue (Field val i) (Field val i)) = Inl e"
proof -
  from assms have i: "i < NumField val"
    by (auto simp: contribution.simps [of val _ i] split: if_splits)
  show thesis
  proof (cases "keyForField (TypeField val i) (Field val i)")
    case (Inl e')
    with assms i have "e' = e" by (simp add: contribution.simps [of val _ i])
    with Inl that(1) show ?thesis by simp
  next
    case (Inr ka)
    obtain key anon where ka: "ka = (key, anon)" by (cases ka)
    note kf = Inr [unfolded ka]
    have "\<not> (PkgPath (TypeField val i) \<noteq> [] \<or> key = [] \<and> \<not> anon)"
    proof
      assume "PkgPath (TypeField val i) \<noteq> [] \<or> key = [] \<and> \<not> anon"
      from contribution_skipped [OF i kf this, of prefix] assms show False by simp
    qed
    then have acc: "accessible val i key anon"
      using i kf by (auto simp: accessible_def)
    from assms that(2) [OF acc] that(3) show ?thesis
      by (auto simp: contribution_accessible [OF acc] split: sum.splits if_splits)
  qed
qed

lemma entries_never_MustBeStruct: "entries val prefix \<noteq> Inl MustBeStruct"
proof (induction val arbitrary: prefix rule: struct_induct)
  case (child val)
  show ?case
  proof
    assume e: "entries val prefix = Inl MustBeStruct"
    then have k: "Kind val = Struct"
      by (simp add: entries.simps [of val] split: if_splits)
    from entries_Inl [OF e k] obtain i where
      i: "i < NumField val" and c: "contribution val prefix i = Inl MustBeStruct"
      by auto
    from c show False
    proof (cases rule: contribution_Inl_cases)
      case 1
      from keyForField_panics [OF this] show ?thesis by simp
    next
      case (2 key anon)
      with child [OF i] show ?thesis by simp
    next
      case 3
      from AddrInterface_panics [OF this] show ?thesis by simp
    qed
  qed
qed

lemma good_dereferenced: "good v \<Longrightarrow> Kind (dereferenced v) = Struct \<Longrightarrow> good (dereferenced v)"
proof (induction v rule: dereferenced.induct)
  case (1 v)
  show ?case
  proof (cases "Kind v = Ptr")
    case False
    with 1(2) show ?thesis by (simp add: dereferenced_other)
  next
    case True
    with 1(2) obtain p where p: "held v = Some (VPtr p)"
      by (auto simp: Kind_def good_def split: val.splits)
    show ?thesis
    proof (cases p)
      case None
      with p have "Elem v = zeroValue" by (simp add: Elem_def)
      then have "Kind (dereferenced v) = Invalid"
        using True by (simp add: dereferenced_Ptr dereferenced_other Kind_def zeroValue_def)
      with 1(3) show ?thesis by simp
    next
      case (Some y)
      with p 1(2) have "good (Elem v)"
        by (simp add: good_def Elem_def)
      from 1(1) [OF True this] 1(3) True show ?thesis
        by (simp add: dereferenced_Ptr)
    qed
  qed
qed

lemma good_extractValue:
  assumes "good F"
    and "\<not> flagRO V"
    and "Kind V = Struct \<longrightarrow> flagAddr V"
    and "\<forall>x. held V = Some x \<longrightarrow> traversable x"
  shows "good (extractValue V F)"
  using assms
proof (induction V F rule: extractValue.induct)
  case (1 val fallback)
  show ?case
  proof (cases "Kind val")
    case Struct
    with 1(4-6) show ?thesis
      by (auto simp: extractValue.simps [of val] good_def Kind_def split: option.splits)
  next
    case Ptr
    have "good (extractValue (Elem val) fallback)"
    proof (rule 1(1) [OF Ptr 1(3)])
      show "\<not> flagRO (Elem val)"
        using 1(4) by (auto simp: Elem_def zeroValue_def split: option.splits val.splits)
      show "Kind (Elem val) = Struct \<longrightarrow> flagAddr (Elem val)"
        using Ptr by (auto simp: Elem_def zeroValue_def Kind_def split: option.splits val.splits)
      show "\<forall>x. held (Elem val) = Some x \<longrightarrow> traversable x"
        using 1(6) Ptr
        by (auto simp: Elem_def zeroValue_def Kind_def split: option.splits val.splits)
    qed
    with Ptr show ?thesis by (simp add: extractValue.simps [of val])
  next
    case Interface
    have "good (extractValue (Elem val) fallback)"
    proof (rule 1(2) [OF Interface 1(3)])
      show "\<not> flagRO (Elem val)"
        using 1(4) by (auto simp: Elem_def zeroValue_def split: option.splits val.splits)
      show "Kind (Elem val) = Struct \<longrightarrow> flagAddr (Elem val)"
        using Interface 1(6)
        by (auto simp: Elem_def zeroValue_def Kind_def split: option.splits val.splits)
      show "\<forall>x. held (Elem val) = Some x \<longrightarrow> traversable x"
        using 1(6) Interface
        by (auto simp: Elem_def zeroValue_def Kind_def split: option.splits val.splits)
    qed
    with Interface show ?thesis by (simp add: extractValue.simps [of val])
  qed (use 1(3) in \<open>simp_all add: extractValue.simps [of val]\<close>)
qed

lemma good_entries: "good val \<Longrightarrow> Kind val = Struct \<Longrightarrow> \<exists>es. entries val prefix = Inr es"
proof (induction val arbitrary: prefix rule: struct_induct)
  case (child val)
  from child.prems obtain fs where fs: "held val = Some (VStruct fs)" and t: "traversable (VStruct fs)"
    and addr: "flagAddr val" and ro: "\<not> flagRO val"
    by (auto simp: good_def Kind_def split: val.splits)
  show ?case
  proof (rule entries_success [OF child.prems(2)])
    fix i
    assume i: "i < NumField val"
    define f where "f = TypeField val i"
    define x where "x = snd (fs ! i)"
    have fx: "(f, x) \<in> set fs"
      using i fs by (simp add: f_def x_def NumField_def TypeField_def fieldsOf_def)
    have F: "Field val i =
        \<lparr>held = Some x, at = at val @ [FieldStep i], flagAddr = True, flagRO = (PkgPath f \<noteq> [])\<rparr>"
      using fs addr ro by (simp add: Field_def fieldsOf_def x_def f_def)
    from t fx have om: "jsonName f \<noteq> ''-'' \<and> Contains (jsonOpts f) ''omitempty'' \<longrightarrow>
        PkgPath f = [] \<and> (case x of VIface _ \<Rightarrow> True | x \<Rightarrow> comparable x)"
      and tx: "PkgPath f = [] \<longrightarrow> traversable x"
      by auto
    have "jsonName f \<noteq> ''-'' \<and> Contains (jsonOpts f) ''omitempty'' \<longrightarrow>
        (\<exists>b. isEmptyValue (Field val i) = Inr b)"
      using om by (auto simp: F isEmptyValue_def split: val.splits)
    from keyForField_total [OF this]
    obtain key anon where kf: "keyForField f (Field val i) = Inr (key, anon)"
      by auto
    show "\<exists>cs. contribution val prefix i = Inr cs"
    proof (cases "PkgPath f \<noteq> [] \<or> key = [] \<and> \<not> anon")
      case True
      from contribution_skipped [OF i kf [unfolded f_def] True [unfolded f_def]]
      show ?thesis by blast
    next
      case False
      then have acc: "accessible val i key anon"
        using i kf by (auto simp: accessible_def f_def)
      define c where "c = extractValue (Field val i) (Field val i)"
      from False tx have gF: "good (Field val i)"
        by (simp add: good_def F)
      have gc: "good c"
        unfolding c_def
        by (rule good_extractValue [OF gF]) (use False tx in \<open>auto simp: F\<close>)
      then have a: "AddrInterface c = Inr (at c)"
        by (simp add: good_def AddrInterface_def)
      show ?thesis
      proof (cases "Kind c = Struct")
        case True
        from child.IH [OF i gc [unfolded c_def] True [unfolded c_def]]
        obtain nested where "entries c (if \<not> anon then prefix @ key @ ''.'' else []) = Inr nested"
          unfolding c_def by blast
        with True a show ?thesis
          by (simp add: contribution_accessible [OF acc] c_def [symmetric])
      next
        case False
        with a show ?thesis
          by (simp add: contribution_accessible [OF acc] c_def [symmetric])
      qed
    qed
  qed
qed

subsection \<open>Values of the same shape\<close>

lemma alike_struct:
  assumes "alike (VStruct fs) y"
  obtains gs where "y = VStruct gs" and "length gs = length fs"
    and "\<And>i. i < length fs \<Longrightarrow> fst (gs ! i) = fst (fs ! i)"
    and "\<And>i. i < length fs \<Longrightarrow> alike (snd (fs ! i)) (snd (gs ! i))"
    and "\<And>i. i < length fs \<Longrightarrow>
           omits (fst (fs ! i)) (snd (fs ! i)) = omits (fst (fs ! i)) (snd (gs ! i))"
proof -
  from assms obtain gs where y: "y = VStruct gs"
    by (cases y) (auto simp: alike_def)
  from assms y have
    t: "list_all2 (\<lambda>fx gy. fst fx = fst gy \<and> sameType (snd fx) (snd gy)) fs gs" and
    o: "list_all2 (\<lambda>fx gy. omits (fst fx) (snd fx) = omits (fst gy) (snd gy) \<and>
                  sameOmitted (snd fx) (snd gy)) fs gs" and
    n: "list_all2 (\<lambda>fx gy. sameNil (snd fx) (snd gy)) fs gs"
    by (simp_all add: alike_def)
  from t have len: "length gs = length fs"
    by (simp add: list_all2_lengthD)
  show thesis
  proof (rule that [OF y len])
    fix i
    assume i: "i < length fs"
    from list_all2_nthD [OF t i] list_all2_nthD [OF o i] list_all2_nthD [OF n i]
    show "fst (gs ! i) = fst (fs ! i)"
      and "alike (snd (fs ! i)) (snd (gs ! i))"
      and "omits (fst (fs ! i)) (snd (fs ! i)) = omits (fst (fs ! i)) (snd (gs ! i))"
      by (simp_all add: alike_def)
  qed
qed

lemma alike_ptr:
  assumes "alike (VPtr p) y"
  obtains q where "y = VPtr q" and "rel_option alike p q"
proof -
  from assms obtain q where y: "y = VPtr q"
    by (cases y) (auto simp: alike_def)
  with assms have "rel_option alike p q"
    by (cases p; cases q) (auto simp: alike_def)
  with y that show thesis by blast
qed

lemma alike_iface:
  assumes "alike (VIface p) y"
  obtains q where "y = VIface q" and "rel_option alike p q"
proof -
  from assms obtain q where y: "y = VIface q"
    by (cases y) (auto simp: alike_def)
  with assms have "rel_option alike p q"
    by (cases p; cases q) (auto simp: alike_def)
  with y that show thesis by blast
qed

lemma alike_scalar:
  "alike (VBool b) y \<Longrightarrow> \<exists>c. y = VBool c"
  "alike (VInt n) y \<Longrightarrow> \<exists>c. y = VInt c"
  "alike (VString t) y \<Longrightarrow> \<exists>c. y = VString c"
  "alike (VSlice l) y \<Longrightarrow> \<exists>c. y = VSlice c"
  by (cases y; simp add: alike_def)+

lemma alike_comparable: "alike x y \<Longrightarrow> comparable x = comparable y"
proof (induction x arbitrary: y rule: comparable.induct, goal_cases)
  case (1 uu y)
  from alike_scalar(4) [OF 1] show ?case by auto
next
  case (2 fs y)
  from 2(2) obtain gs where y: "y = VStruct gs" and len: "length gs = length fs"
    and al: "\<And>i. i < length fs \<Longrightarrow> alike (snd (fs ! i)) (snd (gs ! i))"
    by (rule alike_struct) blast
  have "comparable (snd (fs ! i)) = comparable (snd (gs ! i))" if "i < length fs" for i
    using 2(1) [OF _ al [OF that]] that by simp
  then have "(\<forall>i<length fs. comparable (snd (fs ! i))) = (\<forall>i<length gs. comparable (snd (gs ! i)))"
    using len by auto
  then show ?case
    by (simp add: y all_set_conv_all_nth)
next
  case (3 v y)
  from alike_scalar(1) [OF 3] show ?case by auto
next
  case (4 v y)
  from alike_scalar(2) [OF 4] show ?case by auto
next
  case (5 v y)
  from alike_scalar(3) [OF 5] show ?case by auto
next
  case (6 v y)
  then show ?case by (auto elim: alike_ptr)
next
  case (7 v y)
  then show ?case by (auto elim: alike_iface)
qed

lemma alikeV_Kind: "alikeV A B \<Longrightarrow> Kind B = Kind A"
proof (cases "held A")
  case None
  assume "alikeV A B"
  with None show ?thesis by (simp add: alikeV_def Kind_def)
next
  case (Some x)
  assume "alikeV A B"
  with Some obtain y where y: "held B = Some y" "alike x y"
    by (auto simp: alikeV_def option_rel_Some1)
  from y(2) have "(case x of VBool _ \<Rightarrow> Bool | VInt _ \<Rightarrow> IntKind | VString _ \<Rightarrow> String
      | VSlice _ \<Rightarrow> Slice | VPtr _ \<Rightarrow> Ptr | VIface _ \<Rightarrow> Interface | VStruct _ \<Rightarrow> Struct) =
     (case y of VBool _ \<Rightarrow> Bool | VInt _ \<Rightarrow> IntKind | VString _ \<Rightarrow> String
      | VSlice _ \<Rightarrow> Slice | VPtr _ \<Rightarrow> Ptr | VIface _ \<Rightarrow> Interface | VStruct _ \<Rightarrow> Struct)"
    by (cases x) (auto dest: alike_scalar elim: alike_ptr alike_iface alike_struct)
  with Some y show ?thesis by (simp add: Kind_def)
qed


lemma alikeV_struct:
  assumes "alikeV A B" and "held A = Some (VStruct fs)"
  obtains gs where "held B = Some (VStruct gs)" and "length gs = length fs"
    and "\<And>i. i < length fs \<Longrightarrow> fst (gs ! i) = fst (fs ! i)"
    and "\<And>i. i < length fs \<Longrightarrow> alike (snd (fs ! i)) (snd (gs ! i))"
    and "\<And>i. i < length fs \<Longrightarrow>
           omits (fst (fs ! i)) (snd (fs ! i)) = omits (fst (fs ! i)) (snd (gs ! i))"
proof -
  from assms obtain y where y: "held B = Some y" "alike (VStruct fs) y"
    by (auto simp: alikeV_def option_rel_Some1)
  from y(2) show thesis
    by (rule alike_struct) (use y(1) that in blast)
qed

lemma NumField_other: "Kind A \<noteq> Struct \<Longrightarrow> NumField A = 0"
  by (auto simp: Kind_def NumField_def fieldsOf_def split: option.splits val.splits)

lemma alikeV_NumField: "alikeV A B \<Longrightarrow> NumField B = NumField A"
proof (cases "Kind A = Struct")
  case True
  assume ab: "alikeV A B"
  from True obtain fs where fs: "held A = Some (VStruct fs)"
    by (auto simp: Kind_def split: option.splits val.splits)
  from ab fs obtain gs where "held B = Some (VStruct gs)" "length gs = length fs"
    by (rule alikeV_struct) blast
  with fs show ?thesis
    by (simp add: NumField_def fieldsOf_def)
next
  case False
  assume "alikeV A B"
  from alikeV_Kind [OF this] False show ?thesis
    by (simp add: NumField_other)
qed

lemma alikeV_TypeField: "alikeV A B \<Longrightarrow> i < NumField A \<Longrightarrow> TypeField B i = TypeField A i"
proof -
  assume ab: "alikeV A B" and i: "i < NumField A"
  from i obtain fs where fs: "held A = Some (VStruct fs)"
    by (auto simp: NumField_def fieldsOf_def split: option.splits val.splits)
  from ab fs obtain gs where "held B = Some (VStruct gs)"
    and "\<And>i. i < length fs \<Longrightarrow> fst (gs ! i) = fst (fs ! i)"
    by (rule alikeV_struct) blast
  with i fs show ?thesis
    by (simp add: TypeField_def NumField_def fieldsOf_def)
qed

lemma alikeV_Field: "alikeV A B \<Longrightarrow> i < NumField A \<Longrightarrow> alikeV (Field A i) (Field B i)"
proof -
  assume ab: "alikeV A B" and i: "i < NumField A"
  from i obtain fs where fs: "held A = Some (VStruct fs)"
    by (auto simp: NumField_def fieldsOf_def split: option.splits val.splits)
  from ab fs obtain gs where gs: "held B = Some (VStruct gs)"
    and al: "\<And>i. i < length fs \<Longrightarrow> alike (snd (fs ! i)) (snd (gs ! i))"
    by (rule alikeV_struct) blast
  from alikeV_TypeField [OF ab i] al [of i] ab i fs gs show ?thesis
    by (simp add: alikeV_def Field_def NumField_def fieldsOf_def)
qed

lemma Elem_other: "Kind A \<noteq> Ptr \<Longrightarrow> Kind A \<noteq> Interface \<Longrightarrow> Elem A = zeroValue"
  by (auto simp: Kind_def Elem_def split: option.splits val.splits)

lemma alikeV_Elem: "alikeV A B \<Longrightarrow> alikeV (Elem A) (Elem B)"
proof -
  assume ab: "alikeV A B"
  note k = alikeV_Kind [OF ab]
  consider (p) "Kind A = Ptr" | (i) "Kind A = Interface"
    | (o) "Kind A \<noteq> Ptr" "Kind A \<noteq> Interface"
    by blast
  then show ?thesis
  proof cases
    case p
    then obtain u where u: "held A = Some (VPtr u)"
      by (auto simp: Kind_def split: option.splits val.splits)
    with ab obtain y where y: "held B = Some y" "alike (VPtr u) y"
      by (auto simp: alikeV_def option_rel_Some1)
    from y(2) obtain q where q: "y = VPtr q" "rel_option alike u q"
      by (rule alike_ptr)
    show ?thesis
    proof (cases u)
      case None
      with q have "q = None" by simp
      with None u y q show ?thesis
        by (simp add: alikeV_def Elem_def zeroValue_def)
    next
      case (Some x)
      with q obtain w where "q = Some w" "alike x w"
        by (auto simp: option_rel_Some1)
      with Some u y q ab show ?thesis
        by (simp add: alikeV_def Elem_def)
    qed
  next
    case i
    then obtain u where u: "held A = Some (VIface u)"
      by (auto simp: Kind_def split: option.splits val.splits)
    with ab obtain y where y: "held B = Some y" "alike (VIface u) y"
      by (auto simp: alikeV_def option_rel_Some1)
    from y(2) obtain q where q: "y = VIface q" "rel_option alike u q"
      by (rule alike_iface)
    show ?thesis
    proof (cases u)
      case None
      with q have "q = None" by simp
      with None u y q show ?thesis
        by (simp add: alikeV_def Elem_def zeroValue_def)
    next
      case (Some x)
      with q obtain w where "q = Some w" "alike x w"
        by (auto simp: option_rel_Some1)
      with Some u y q ab show ?thesis
        by (simp add: alikeV_def Elem_def)
    qed
  next
    case o
    with k have "Elem A = zeroValue" "Elem B = zeroValue"
      by (simp_all add: Elem_other)
    then show ?thesis
      by (simp add: alikeV_def zeroValue_def)
  qed
qed

lemma alikeV_extractValue:
  "alikeV A B \<Longrightarrow> alikeV F G \<Longrightarrow> alikeV (extractValue A F) (extractValue B G)"
proof (induction A F arbitrary: B rule: extractValue.induct)
  case (1 val fallback)
  note k = alikeV_Kind [OF 1(3)]
  note e = alikeV_Elem [OF 1(3)]
  show ?case
  proof (cases "Kind val")
    case Ptr
    with 1(1) [OF Ptr e 1(4)] k show ?thesis
      by (simp add: extractValue.simps [of val] extractValue.simps [of B])
  next
    case Interface
    with 1(2) [OF Interface e 1(4)] k show ?thesis
      by (simp add: extractValue.simps [of val] extractValue.simps [of B])
  qed (use 1(3,4) k in \<open>simp_all add: extractValue.simps [of val] extractValue.simps [of B]\<close>)
qed

lemma alikeV_AddrInterface: "alikeV A B \<Longrightarrow> AddrInterface B = AddrInterface A"
  by (simp add: alikeV_def AddrInterface_def)

lemma isEmptyValue_iface:
  "held v = Some (VIface p) \<Longrightarrow>
   isEmptyValue v = (if flagRO v then Inl InterfaceOfUnexported else Inr (p = None))"
  by (simp add: isEmptyValue_def)

lemma isEmptyValue_other:
  "held v = Some x \<Longrightarrow> \<forall>p. x \<noteq> VIface p \<Longrightarrow>
   isEmptyValue v =
     (if flagRO v then Inl InterfaceOfUnexported
      else if comparable x then Inr (isZero x) else Inl UncomparableType)"
  by (cases x) (simp_all add: isEmptyValue_def)

lemma alikeV_keyForField:
  assumes "alikeV A B" and "i < NumField A"
  shows "keyForField (TypeField B i) (Field B i) = keyForField (TypeField A i) (Field A i)"
proof -
  define f where "f = TypeField A i"
  have tf: "TypeField B i = f"
    using alikeV_TypeField [OF assms] by (simp add: f_def)
  from assms(2) obtain fs where fs: "held A = Some (VStruct fs)"
    by (auto simp: NumField_def fieldsOf_def split: option.splits val.splits)
  from assms(1) fs obtain gs where gs: "held B = Some (VStruct gs)"
    and al: "\<And>i. i < length fs \<Longrightarrow> alike (snd (fs ! i)) (snd (gs ! i))"
    and om: "\<And>i. i < length fs \<Longrightarrow>
           omits (fst (fs ! i)) (snd (fs ! i)) = omits (fst (fs ! i)) (snd (gs ! i))"
    by (rule alikeV_struct) blast
  define x where "x = snd (fs ! i)"
  define y where "y = snd (gs ! i)"
  have i: "i < length fs"
    using assms(2) fs by (simp add: NumField_def fieldsOf_def)
  have xy: "alike x y"
    using al [OF i] by (simp add: x_def y_def)
  have hA: "held (Field A i) = Some x" and hB: "held (Field B i) = Some y"
    using fs gs by (simp_all add: Field_def fieldsOf_def x_def y_def)
  have ro: "flagRO (Field B i) = flagRO (Field A i)"
    using alikeV_Field [OF assms] by (simp add: alikeV_def)
  have emp: "isEmptyValue (Field B i) = isEmptyValue (Field A i)"
    if c: "Contains (jsonOpts f) ''omitempty''"
  proof -
    have z: "isZero x = isZero y"
      using om [OF i] c fs by (simp add: omits_def f_def x_def y_def TypeField_def fieldsOf_def)
    show ?thesis
    proof (cases "\<exists>p. x = VIface p")
      case True
      then obtain p where p: "x = VIface p" by auto
      with xy obtain q where q: "y = VIface q" by (auto elim: alike_iface)
      from z p q have "(p = None) = (q = None)" by simp
      then show ?thesis
        by (simp add: isEmptyValue_iface [OF hA [unfolded p]] isEmptyValue_iface [OF hB [unfolded q]] ro)
    next
      case False
      have "Kind (Field B i) = Kind (Field A i)"
        using alikeV_Kind [OF alikeV_Field [OF assms]] .
      with False have ny: "\<forall>q. y \<noteq> VIface q"
        by (auto simp: Kind_def hA hB split: val.splits)
      from False have nx: "\<forall>p. x \<noteq> VIface p" by simp
      show ?thesis
        unfolding isEmptyValue_other [OF hA nx] isEmptyValue_other [OF hB ny] ro z
          alike_comparable [OF xy]
        by (rule refl)
    qed
  qed
  show ?thesis
  proof (cases "Get (Tag f) ''json'' = []")
    case True
    then show ?thesis
      by (simp add: keyForField_untagged tf f_def [symmetric])
  next
    case False
    show ?thesis
    proof (cases "Contains (jsonOpts f) ''omitempty''")
      case True
      show ?thesis
        unfolding tf f_def [symmetric] keyForField_tagged [OF False] emp [OF True]
        by (rule refl)
    next
      case nc: False
      show ?thesis
        unfolding tf f_def [symmetric] keyForField_tagged [OF False]
        using nc by simp
    qed
  qed
qed

lemma alikeV_entries: "alikeV A B \<Longrightarrow> entries B p = entries A p"
proof (induction A arbitrary: B p rule: struct_induct)
  case (child A)
  note ab = child.prems
  have "contribution B p i = contribution A p i" if i: "i < NumField A" for i
  proof -
    let ?cA = "extractValue (Field A i) (Field A i)"
    let ?cB = "extractValue (Field B i) (Field B i)"
    have c: "alikeV ?cA ?cB"
      by (intro alikeV_extractValue alikeV_Field [OF ab i])
    have e: "entries ?cB q = entries ?cA q" for q
      by (rule child.IH [OF i c])
    have kf: "keyForField (TypeField A i) (Field B i) = keyForField (TypeField A i) (Field A i)"
      using alikeV_keyForField [OF ab i] alikeV_TypeField [OF ab i] by simp
    have "contribution B p i =
      (case keyForField (TypeField A i) (Field A i) of
           Inl e \<Rightarrow> Inl e
         | Inr (key, anonymous) \<Rightarrow>
             if PkgPath (TypeField A i) \<noteq> [] \<or> (key = [] \<and> \<not> anonymous) then Inr []
             else
               (case (if Kind ?cA = Struct
                      then entries ?cA (if \<not> anonymous then p @ key @ ''.'' else [])
                      else Inr []) of
                     Inl e \<Rightarrow> Inl e
                   | Inr nested \<Rightarrow>
                       if nested \<noteq> [] then Inr nested
                       else
                         (case AddrInterface ?cA of
                            Inl e \<Rightarrow> Inl e
                          | Inr q \<Rightarrow> Inr [(p @ key, q)])))"
      unfolding contribution_unfold [of B p i] alikeV_NumField [OF ab] alikeV_TypeField [OF ab i]
        kf alikeV_Kind [OF c] alikeV_AddrInterface [OF c] e
      using i by simp
    also have "\<dots> = contribution A p i"
      unfolding contribution_unfold [of A p i] using i by simp
    finally show ?thesis .
  qed
  then have m: "map (contribution B p) [0..<NumField A] = map (contribution A p) [0..<NumField A]"
    by simp
  show ?case
    unfolding entries.simps [of A] entries.simps [of B] alikeV_Kind [OF ab]
      alikeV_NumField [OF ab] m
    by (rule refl)
qed

lemma alikeV_dereferenced: "alikeV A B \<Longrightarrow> alikeV (dereferenced A) (dereferenced B)"
proof (induction A arbitrary: B rule: dereferenced.induct)
  case (1 v)
  show ?case
  proof (cases "Kind v = Ptr")
    case True
    with 1(1) [OF True alikeV_Elem [OF 1(2)]] alikeV_Kind [OF 1(2)] show ?thesis
      by (simp add: dereferenced_Ptr)
  next
    case False
    with 1(2) alikeV_Kind [OF 1(2)] show ?thesis
      by (simp add: dereferenced_other)
  qed
qed

lemma alike_ValueOf: "alike a b \<Longrightarrow> alikeV (ValueOf a) (ValueOf b)"
proof (induction a arbitrary: b rule: ValueOf.induct, goal_cases)
  case (1 b)
  then obtain q where "b = VIface q" "rel_option alike None q"
    by (auto elim: alike_iface)
  then show ?case by (simp add: alikeV_def zeroValue_def)
next
  case (2 v b)
  from 2(2) obtain q where "b = VIface q" "rel_option alike (Some v) q"
    by (auto elim: alike_iface)
  then obtain w where "b = VIface (Some w)" "alike v w"
    by (auto simp: option_rel_Some1)
  with 2(1) show ?case by simp
next
  case (3 v b)
  from alike_scalar(1) [OF 3] 3 show ?case by (auto simp: alikeV_def)
next
  case (4 v b)
  from alike_scalar(2) [OF 4] 4 show ?case by (auto simp: alikeV_def)
next
  case (5 v b)
  from alike_scalar(3) [OF 5] 5 show ?case by (auto simp: alikeV_def)
next
  case (6 v b)
  from alike_scalar(4) [OF 6] 6 show ?case by (auto simp: alikeV_def)
next
  case (7 v b)
  from 7 obtain q where "b = VPtr q" by (rule alike_ptr)
  with 7 show ?case by (simp add: alikeV_def)
next
  case (8 v b)
  from 8 obtain gs where "b = VStruct gs" by (rule alike_struct)
  with 8 show ?case by (simp add: alikeV_def)
qed

lemma alike_Flatten: "alike a b \<Longrightarrow> Flatten b = Flatten a"
proof -
  assume "alike a b"
  then have d: "alikeV (dereferenced (ValueOf a)) (dereferenced (ValueOf b))"
    by (intro alikeV_dereferenced alike_ValueOf)
  from alikeV_Kind [OF d] alikeV_entries [OF d] show ?thesis
    by (simp add: Flatten_entries)
qed

subsection \<open>Paths of registered fields\<close>

lemma keyForField_promotion:
  assumes "keyForField f v = Inr (key, True)"
  shows "promotable f \<and> key = []"
proof (cases "Get (Tag f) ''json'' = []")
  case True
  with assms show ?thesis
    by (auto simp: keyForField_untagged promotable_def jsonName_def SplitN2_def
        split: if_splits)
next
  case False
  with assms show ?thesis
    by (auto simp: keyForField_tagged promotable_def split: if_splits sum.splits)
qed

lemma keyForField_named:
  assumes "keyForField f v = Inr (key, False)" and "key \<noteq> []"
  shows "\<not> promotable f"
proof (cases "Get (Tag f) ''json'' = []")
  case True
  with assms show ?thesis
    by (auto simp: keyForField_untagged promotable_def split: if_splits)
next
  case False
  with assms show ?thesis
    by (auto simp: keyForField_tagged promotable_def split: if_splits sum.splits)
qed


lemma keyOf_Nil [simp]: "keyOf [] key = key"
  by (simp add: keyOf_def)

lemma keyOf_snoc: "keyOf (names @ [n]) key = keyOf names (n @ ''.'' @ key)"
  by (simp add: keyOf_def)

lemma keyOf_prefix: "keyOf names key = keyOf names [] @ key"
  by (simp add: keyOf_def)

lemma keyOf_empty: "keyOf names [] = [] \<longleftrightarrow> names = []"
  by (cases names) (simp_all add: keyOf_def)

lemma segments_keyOf:
  assumes "\<forall>n \<in> set names. CHR ''.'' \<notin> set n" and "CHR ''.'' \<notin> set key"
  shows "segments (keyOf names key) = names @ [key]"
  using assms
proof (induction names)
  case Nil
  then show ?case by (simp add: segments_def Split_no_separator)
next
  case (Cons n names)
  then have "Split CHR ''.'' (n @ CHR ''.'' # keyOf names key) = n # Split CHR ''.'' (keyOf names key)"
    by (intro Split_at_separator) simp
  with Cons show ?case
    by (simp add: segments_def keyOf_def)
qed

lemma noPromotionUnder_Elem:
  assumes "\<forall>x. held V = Some x \<longrightarrow> noPromotionUnder b x"
  shows "\<forall>x. held (Elem V) = Some x \<longrightarrow> noPromotionUnder b x"
  using assms by (auto simp: Elem_def zeroValue_def split: option.splits val.splits)

lemma noPromotionUnder_extractValue:
  assumes "\<forall>x. held V = Some x \<longrightarrow> noPromotionUnder b x"
    and "\<forall>x. held F = Some x \<longrightarrow> noPromotionUnder b x"
  shows "\<forall>x. held (extractValue V F) = Some x \<longrightarrow> noPromotionUnder b x"
  using assms
proof (induction V F rule: extractValue.induct)
  case (1 val fallback)
  show ?case
  proof (cases "Kind val")
    case Ptr
    with 1(1) [OF Ptr noPromotionUnder_Elem [OF 1(3)] 1(4)] show ?thesis
      by (simp add: extractValue.simps [of val])
  next
    case Interface
    with 1(2) [OF Interface noPromotionUnder_Elem [OF 1(3)] 1(4)] show ?thesis
      by (simp add: extractValue.simps [of val])
  qed (use 1(3,4) in \<open>simp_all add: extractValue.simps [of val]\<close>)
qed

lemma noPromotionUnder_dereferenced:
  assumes "\<forall>x. held V = Some x \<longrightarrow> noPromotionUnder b x"
  shows "\<forall>x. held (dereferenced V) = Some x \<longrightarrow> noPromotionUnder b x"
  using assms
proof (induction V rule: dereferenced.induct)
  case (1 v)
  show ?case
  proof (cases "Kind v = Ptr")
    case True
    with 1(1) [OF True noPromotionUnder_Elem [OF 1(2)]] show ?thesis
      by (simp add: dereferenced_Ptr)
  next
    case False
    with 1(2) show ?thesis by (simp add: dereferenced_other)
  qed
qed

lemma noPromotionUnder_ValueOf:
  "noPromotionUnder b v \<Longrightarrow> \<forall>x. held (ValueOf v) = Some x \<longrightarrow> noPromotionUnder b x"
  by (induction v rule: ValueOf.induct) (simp_all add: zeroValue_def)

lemma entries_registered:
  assumes "reach root names A"
    and "\<forall>x. held A = Some x \<longrightarrow> noPromotionUnder (names \<noteq> []) x"
    and "entries A (keyOf names []) = Inr es"
    and "(k, l) \<in> set es"
  shows "\<exists>names' key c. registeredAt root names' key c \<and> k = keyOf names' key \<and> l = at c"
  using assms
proof (induction A arbitrary: names es rule: struct_induct)
  case (child A)
  let ?p = "keyOf names []"
  from entries_mem [OF child.prems(3,4)] obtain i cs where
    i: "i < NumField A" and cs: "contribution A ?p i = Inr cs" and kl: "(k, l) \<in> set cs"
    by blast
  from kl have ne: "cs \<noteq> []" by auto
  let ?c = "extractValue (Field A i) (Field A i)"
  from i obtain fs where fs: "held A = Some (VStruct fs)"
    by (auto simp: NumField_def fieldsOf_def split: option.splits val.splits)
  with child.prems(2) have np: "noPromotionUnder (names \<noteq> []) (VStruct fs)" by simp
  have fx: "fs ! i \<in> set fs"
    using i fs by (simp add: NumField_def fieldsOf_def)
  have f: "TypeField A i = fst (fs ! i)" and hx: "held (Field A i) = Some (snd (fs ! i))"
    using fs by (simp_all add: TypeField_def Field_def fieldsOf_def)
  from np fx have pr: "promotable (TypeField A i) \<longrightarrow> names = []"
    and sub: "noPromotionUnder (names \<noteq> [] \<or> \<not> promotable (TypeField A i)) (snd (fs ! i))"
    by (auto simp: f)
  from cs ne show ?case
  proof (cases rule: contribution_Inr_cases)
    case (1 key anon)
    let ?names = "if anon then names else names @ [key]"
    have r: "reach root ?names ?c"
      by (rule reach_field [OF child.prems(1) 1(1) refl 1(2)])
    have kf: "keyForField (TypeField A i) (Field A i) = Inr (key, anon)"
      and k: "key \<noteq> [] \<or> anon"
      using 1(1) by (simp_all add: accessible_def)
    have flag: "(names \<noteq> [] \<or> \<not> promotable (TypeField A i)) = (?names \<noteq> [])"
    proof (cases anon)
      case True
      with kf keyForField_promotion [of "TypeField A i" "Field A i" key]
      have "promotable (TypeField A i)" by simp
      with pr True show ?thesis by simp
    next
      case False
      with kf k keyForField_named [of "TypeField A i" "Field A i" key]
      have "\<not> promotable (TypeField A i)" by simp
      with False show ?thesis by simp
    qed
    have pre: "(if \<not> anon then ?p @ key @ ''.'' else []) = keyOf ?names []"
    proof (cases anon)
      case True
      with kf keyForField_promotion [of "TypeField A i" "Field A i" key]
      have "promotable (TypeField A i)" by simp
      with pr True show ?thesis by simp
    next
      case False
      then show ?thesis by (simp add: keyOf_def)
    qed
    have "\<forall>x. held ?c = Some x \<longrightarrow> noPromotionUnder (?names \<noteq> []) x"
      by (rule noPromotionUnder_extractValue) (use sub flag hx in auto)
    from child.IH [OF i r this 1(3) [unfolded pre] kl] show ?thesis .
  next
    case (2 key anon)
    have "Kind ?c = Struct \<longrightarrow> entries ?c [] = Inr []"
      using 2(2) entries_empty_prefix by blast
    with child.prems(1) 2(1) have "registeredAt root names key ?c"
      by (auto simp: registeredAt_def)
    moreover from 2(4) kl have "k = keyOf names key" "l = at ?c"
      by (simp_all add: keyOf_prefix [of names key])
    ultimately show ?thesis by blast
  qed
qed

subsection \<open>The storage of the dereferenced input\<close>





subsection \<open>The comparison with the zero value\<close>

lemma isEmptyValue_comparable:
  "\<not> flagRO v \<Longrightarrow> held v = Some x \<Longrightarrow> comparable x \<Longrightarrow> isEmptyValue v = Inr (isZero x)"
  by (cases x) (simp_all add: isEmptyValue_def)

section \<open>Tags and the omitempty option\<close>

text \<open>
  C7, as the code has it. For a field with a non-empty \<^verbatim>\<open>json\<close> tag whose name is
  not \<^verbatim>\<open>-\<close>, exported and of a comparable type (an interface type is one):
  \<^verbatim>\<open>keyForField\<close> answers "skip" exactly when the text after the first comma of
  the tag contains \<^verbatim>\<open>omitempty\<close> as a substring and the value of the field is
  equal to the zero value of its type. This covers a tag that has \<^verbatim>\<open>omitempty\<close>
  among its comma-separated options, and also one with a longer option that
  contains it. When the substring is absent, the options and the value have no
  influence on the answer, for any field.
\<close>

theorem omitempty_is_substring_rule:
  assumes "Get (Tag field) ''json'' \<noteq> []" and "jsonName field \<noteq> ''-''" and "Name field \<noteq> []"
  shows "(\<not> flagRO v \<and> held v = Some x \<and> comparable x \<longrightarrow>
            (keyForField field v = Inr ([], False)
               \<longleftrightarrow> Contains (jsonOpts field) ''omitempty'' \<and> isZero x))
       \<and> (''omitempty'' \<in> set (optionTokens (jsonOpts field))
            \<longrightarrow> Contains (jsonOpts field) ''omitempty'')
       \<and> (\<not> Contains (jsonOpts field) ''omitempty'' \<longrightarrow>
            keyForField field v =
              (if jsonName field \<noteq> [] then Inr (jsonName field, False)
               else if Anonymous field then Inr ([], True)
               else Inr (Name field, False)))"
proof -
  have "keyForField field v = Inr ([], False)
          \<longleftrightarrow> Contains (jsonOpts field) ''omitempty'' \<and> isZero x"
    if "\<not> flagRO v" "held v = Some x" "comparable x"
    using assms isEmptyValue_comparable [OF that]
    by (auto simp: keyForField_tagged)
  moreover have "Contains (jsonOpts field) ''omitempty''"
    if "''omitempty'' \<in> set (optionTokens (jsonOpts field))"
    using that by (rule token_Contains)
  moreover have "keyForField field v =
              (if jsonName field \<noteq> [] then Inr (jsonName field, False)
               else if Anonymous field then Inr ([], True)
               else Inr (Name field, False))"
    if "\<not> Contains (jsonOpts field) ''omitempty''"
    using assms that by (simp add: keyForField_tagged)
  ultimately show ?thesis by blast
qed

text \<open>
  A field tagged \<^verbatim>\<open>count,omitempty\<close> with the values 0 and 5, and one tagged
  \<^verbatim>\<open>count,string\<close> with the value 0.
\<close>

theorem omitempty_is_substring_rule_witness:
  "keyForField (tagged ''Count'' ''count,omitempty'')
      \<lparr>held = Some (VInt 0), at = [FieldStep 0], flagAddr = True, flagRO = False\<rparr> = Inr ([], False)
   \<and> keyForField (tagged ''Count'' ''count,omitempty'')
      \<lparr>held = Some (VInt 5), at = [FieldStep 0], flagAddr = True, flagRO = False\<rparr> \<noteq> Inr ([], False)
   \<and> keyForField (tagged ''Count'' ''count,string'')
      \<lparr>held = Some (VInt 0), at = [FieldStep 0], flagAddr = True, flagRO = False\<rparr> = Inr (''count'', False)"
  using omitempty_is_substring_rule [of "tagged ''Count'' ''count,omitempty''"
      "\<lparr>held = Some (VInt 0), at = [FieldStep 0], flagAddr = True, flagRO = False\<rparr>" "VInt 0"]
    omitempty_is_substring_rule [of "tagged ''Count'' ''count,omitempty''"
      "\<lparr>held = Some (VInt 5), at = [FieldStep 0], flagAddr = True, flagRO = False\<rparr>" "VInt 5"]
    omitempty_is_substring_rule [of "tagged ''Count'' ''count,string''"
      "\<lparr>held = Some (VInt 0), at = [FieldStep 0], flagAddr = True, flagRO = False\<rparr>" "VInt 0"]
  by (simp add: tagged_def jsonName_def jsonOpts_def Get_def SplitN2_def)

text \<open>
  C7 as stated fails: a field tagged \<^verbatim>\<open>count,xomitemptyx\<close> with value 0 is
  skipped, although \<^verbatim>\<open>omitempty\<close> is not one of the options of its tag.
\<close>

theorem omitempty_token_counterexample:
  "keyForField (tagged ''Count'' ''count,xomitemptyx'')
      \<lparr>held = Some (VInt 0), at = [FieldStep 0], flagAddr = True, flagRO = False\<rparr> = Inr ([], False)
   \<and> ''omitempty'' \<notin> set (optionTokens (jsonOpts (tagged ''Count'' ''count,xomitemptyx'')))"
  by (simp add: tagged_def jsonName_def jsonOpts_def Get_def SplitN2_def isEmptyValue_def
      keyForField_def optionTokens_def)


section \<open>Worked examples\<close>

text \<open>
  C6. \<^verbatim>\<open>Flatten(&Shape{Point{1, 2}, "red"})\<close> returns the map with exactly the keys
  \<^verbatim>\<open>pt.X\<close>, \<^verbatim>\<open>pt.Y\<close> and \<^verbatim>\<open>Color\<close>, which refer to the storage of the fields that
  hold 1, 2 and "red".
\<close>

theorem Shape_worked_example:
  "Flatten (VPtr (Some Shape)) =
     Inr [''pt.X'' \<mapsto> [ElemStep, FieldStep 0, FieldStep 0],
          ''pt.Y'' \<mapsto> [ElemStep, FieldStep 0, FieldStep 1],
          ''Color'' \<mapsto> [ElemStep, FieldStep 1]]
   \<and> deref (VPtr (Some Shape)) [ElemStep, FieldStep 0, FieldStep 0] = Some (VInt 1)
   \<and> deref (VPtr (Some Shape)) [ElemStep, FieldStep 0, FieldStep 1] = Some (VInt 2)
   \<and> deref (VPtr (Some Shape)) [ElemStep, FieldStep 1] = Some (VString ''red'')"
  by (simp add: eval_simps example_defs)

text \<open>
  C1. In \<^verbatim>\<open>Flatten(&Outer{Mid{Inner{1}, "x"}})\<close> the field \<^verbatim>\<open>N\<close> is reached through
  the embedded field \<^verbatim>\<open>Inner\<close> inside the named field \<^verbatim>\<open>M\<close>. The code starts the
  child prefix of an embedded field at the empty string, so the key of \<^verbatim>\<open>N\<close> is
  \<^verbatim>\<open>N\<close> and not \<^verbatim>\<open>M.N\<close>, while its sibling \<^verbatim>\<open>L\<close> is at \<^verbatim>\<open>M.L\<close>.
\<close>

theorem embedded_under_named_drops_prefix:
  "Flatten (VPtr (Some Outer)) =
     Inr [''N'' \<mapsto> [ElemStep, FieldStep 0, FieldStep 0, FieldStep 0],
          ''M.L'' \<mapsto> [ElemStep, FieldStep 0, FieldStep 1]]"
  by (simp add: eval_simps example_defs)

section \<open>The value extractor\<close>




section \<open>What one traversal registers\<close>

text \<open>
  C9. A traversal that returns has written the entries of \<open>entries\<close> into the
  map, in order, and returns their number. These are the contributions of the
  fields of the composite, one after the other: for a field that is traversed,
  the entries of its extracted composite when that traversal adds at least one,
  and otherwise the single entry at \<open>prefix @ key\<close> for the storage of the
  extracted value (see \<open>contribution\<close>). The count returned is the sum of the
  numbers of entries of the fields. A traversal that does not return panics in
  \<^verbatim>\<open>keyForField\<close> or in \<^verbatim>\<open>Addr\<close>, and \<open>entries\<close> is that panic.
\<close>

theorem traversal_adds_field_contributions:
  "recursiveFlatten val prefix out =
     (case entries val prefix of
        Inl e \<Rightarrow> Inl e
      | Inr es \<Rightarrow> Inr (store es out, length es))
   \<and> (recursiveFlatten val prefix out = Inr (out', n) \<longrightarrow>
        (\<exists>css. length css = NumField val
            \<and> (\<forall>i<NumField val. contribution val prefix i = Inr (css ! i))
            \<and> out' = store (concat css) out
            \<and> n = sum_list (map length css)))"
proof -
  have "\<exists>css. length css = NumField val
            \<and> (\<forall>i<NumField val. contribution val prefix i = Inr (css ! i))
            \<and> out' = store (concat css) out
            \<and> n = sum_list (map length css)"
    if r: "recursiveFlatten val prefix out = Inr (out', n)"
  proof -
    from r obtain es where es: "entries val prefix = Inr es" "out' = store es out" "n = length es"
      by (auto simp: traversal_entries(1) [of val] split: sum.splits)
    then have "collect (map (contribution val prefix) [0..<NumField val]) = Inr es"
      by (simp add: entries.simps [of val] split: if_splits)
    then obtain css where css: "map (contribution val prefix) [0..<NumField val] = map Inr css"
      and c: "es = concat css"
      by (auto simp: collect_Inr_iff)
    from css have len: "length css = NumField val"
      using length_map [of "contribution val prefix" "[0..<NumField val]"] by simp
    have "contribution val prefix i = Inr (css ! i)" if "i < NumField val" for i
    proof -
      have "map (contribution val prefix) [0..<NumField val] ! i = map Inr css ! i"
        using css by simp
      with that len show ?thesis by simp
    qed
    with len es c show ?thesis
      by (auto simp: length_concat)
  qed
  then show ?thesis
    using traversal_entries(1) [of val prefix out] by blast
qed

text \<open>The struct behind a pointer to \<^verbatim>\<open>Shape{Point{1, 2}, "red"}\<close>.\<close>

theorem traversal_adds_field_contributions_witness:
  "recursiveFlatten \<lparr>held = Some Shape, at = [ElemStep], flagAddr = True, flagRO = False\<rparr>
       [] Map.empty =
     Inr (store [(''pt.X'', [ElemStep, FieldStep 0, FieldStep 0]),
                 (''pt.Y'', [ElemStep, FieldStep 0, FieldStep 1]),
                 (''Color'', [ElemStep, FieldStep 1])] Map.empty, 3)"
proof -
  let ?v = "\<lparr>held = Some Shape, at = [ElemStep], flagAddr = True, flagRO = False\<rparr>"
  have "entries ?v [] =
     Inr [(''pt.X'', [ElemStep, FieldStep 0, FieldStep 0]),
          (''pt.Y'', [ElemStep, FieldStep 0, FieldStep 1]),
          (''Color'', [ElemStep, FieldStep 1])]"
    by (simp add: entries.simps contribution.simps eval_simps example_defs upt_conv_Cons)
  with traversal_adds_field_contributions [of ?v "[]" Map.empty] show ?thesis
    by simp
qed

text \<open>
  C10. When \<open>Flatten\<close> returns and field \<open>i\<close> of the top-level composite is an
  exported embedded field without a \<^verbatim>\<open>json\<close> tag whose extracted composite
  contributes no entry, the traversal has registered that composite under the
  empty key, and the empty string is a key of the returned map.
\<close>

theorem embedded_empty_composite_at_empty_key:
  assumes "Flatten v = Inr m"
    and "root = dereferenced (ValueOf v)"
    and "i < NumField root"
    and "Anonymous (TypeField root i)"
    and "Get (Tag (TypeField root i)) ''json'' = []"
    and "PkgPath (TypeField root i) = []"
    and "c = extractValue (Field root i) (Field root i)"
    and "Kind c = Struct"
    and "entries c [] = Inr []"
  shows "[] \<in> dom m \<and> (\<exists>es. entries root [] = Inr es \<and> m = store es Map.empty \<and> ([], at c) \<in> set es)"
proof -
  from assms(1,2) obtain es where es: "entries root [] = Inr es" and m: "m = store es Map.empty"
    by (auto simp: Flatten_entries split: if_splits sum.splits)
  have kf: "keyForField (TypeField root i) (Field root i) = Inr ([], True)"
    using assms(4,5) by (simp add: keyForField_def)
  then have acc: "accessible root i [] True"
    using assms(3,6) by (simp add: accessible_def)
  from entries_sub [OF es assms(3)] obtain cs where
    cs: "contribution root [] i = Inr cs" and sub: "set cs \<subseteq> set es"
    by auto
  from cs have "AddrInterface c = Inr (at c) \<and> cs = [([], at c)]"
    using assms(8,9) AddrInterface_at [of c]
    by (auto simp: contribution_accessible [OF acc] assms(7) [symmetric] split: sum.splits)
  with sub have in_es: "([], at c) \<in> set es" by auto
  then have "[] \<in> fst ` set es" by force
  then have "[] \<in> dom m" by (simp add: m store_dom)
  with es m in_es show ?thesis by blast
qed

text \<open>\<^verbatim>\<open>Flatten(&Wrapper{Empty{}, "a"})\<close>.\<close>

theorem embedded_empty_composite_at_empty_key_witness:
  "Flatten (VPtr (Some Wrapper)) =
     Inr [[] \<mapsto> [ElemStep, FieldStep 0], ''Label'' \<mapsto> [ElemStep, FieldStep 1]]
   \<and> [] \<in> dom [[] \<mapsto> [ElemStep, FieldStep 0], ''Label'' \<mapsto> [ElemStep, FieldStep 1]]"
proof -
  let ?m = "[[] \<mapsto> [ElemStep, FieldStep 0], ''Label'' \<mapsto> [ElemStep, FieldStep 1]]"
  let ?root = "\<lparr>held = Some Wrapper, at = [ElemStep], flagAddr = True, flagRO = False\<rparr>"
  let ?c = "\<lparr>held = Some (VStruct []), at = [ElemStep, FieldStep 0], flagAddr = True, flagRO = False\<rparr>"
  have f: "Flatten (VPtr (Some Wrapper)) = Inr ?m"
    by (simp add: eval_simps example_defs)
  have r: "?root = dereferenced (ValueOf (VPtr (Some Wrapper)))"
    by (simp add: dereferenced.simps Kind_def Elem_def example_defs)
  have c: "?c = extractValue (Field ?root 0) (Field ?root 0)"
    by (simp add: eval_simps example_defs)
  have e: "entries ?c [] = Inr []"
    by (simp add: entries.simps Kind_def NumField_def fieldsOf_def)
  have "[] \<in> dom ?m \<and> (\<exists>es. entries ?root [] = Inr es \<and> ?m = store es Map.empty \<and> ([], at ?c) \<in> set es)"
    by (rule embedded_empty_composite_at_empty_key [OF f r _ _ _ _ c _ e])
       (simp_all add: NumField_def fieldsOf_def TypeField_def Kind_def Get_def example_defs)
  with f show ?thesis by blast
qed

section \<open>Pointer, value and boxed value\<close>

text \<open>
  C4, as the code has it. A boxed composite is the composite passed by value:
  \<open>Flatten\<close> gives the same result for both. Whenever \<open>Flatten\<close> returns a map for a
  composite passed by value, it returns a map for a pointer to the composite as
  well, with the same keys, and every key refers to the same field, one pointer
  step further from the argument.
\<close>

theorem by_value_agrees_with_pointer:
  "Flatten (VIface (Some s)) = Flatten s
   \<and> (Flatten (VStruct fs) = Inr m \<longrightarrow>
       (\<exists>m'. Flatten (VPtr (Some (VStruct fs))) = Inr m' \<and> dom m' = dom m \<and>
          (\<forall>k \<in> dom m. \<exists>l. m k = Some l \<and> m' k = Some (ElemStep # l) \<and>
             deref (VPtr (Some (VStruct fs))) (ElemStep # l) = deref (VStruct fs) l)))"
proof -
  let ?A = "\<lparr>held = Some (VStruct fs), at = [], flagAddr = False, flagRO = False\<rparr>"
  let ?B = "\<lparr>held = Some (VStruct fs), at = [ElemStep], flagAddr = True, flagRO = False\<rparr>"
  let ?m' = "\<lambda>k. map_option ((@) [ElemStep]) (m k)"
  have mv: "moved [ElemStep] ?A ?B"
    by (simp add: moved_def)
  have "Flatten (VPtr (Some (VStruct fs))) = Inr ?m'" if f: "Flatten (VStruct fs) = Inr m"
  proof -
    from f obtain es where es: "entries ?A [] = Inr es" and m: "m = store es Map.empty"
      by (auto simp: Flatten_struct split: sum.splits)
    from moved_entries [OF mv es]
    have "entries ?B [] = Inr (map (\<lambda>(k, l). (k, [ElemStep] @ l)) es)" .
    moreover have "store (map (\<lambda>(k, l). (k, [ElemStep] @ l)) es) Map.empty = ?m'"
      using store_moved [of "(@) [ElemStep]" es Map.empty] by (simp add: m)
    ultimately show ?thesis
      by (simp add: Flatten_pointer_to_struct)
  qed
  moreover have "dom ?m' = dom m"
    by (auto simp: dom_def)
  moreover have "Flatten (VIface (Some s)) = Flatten s"
    by (simp add: Flatten_def)
  ultimately show ?thesis
    by auto
qed

text \<open>\<^verbatim>\<open>Linked{&Inner{1}}\<close>, boxed, by value and behind a pointer.\<close>

theorem by_value_agrees_with_pointer_witness:
  "Flatten (VIface (Some Linked)) = Flatten Linked
   \<and> Flatten Linked = Inr [''P.N'' \<mapsto> [FieldStep 0, ElemStep, FieldStep 0]]
   \<and> (\<exists>m'. Flatten (VPtr (Some Linked)) = Inr m' \<and> dom m' = {''P.N''}
         \<and> m' ''P.N'' = Some [ElemStep, FieldStep 0, ElemStep, FieldStep 0])"
proof -
  let ?m = "[''P.N'' \<mapsto> [FieldStep 0, ElemStep, FieldStep 0]]"
  have f: "Flatten (VStruct [(exported ''P'', VPtr (Some Inner))]) = Inr ?m"
    by (simp add: eval_simps example_defs)
  from by_value_agrees_with_pointer [of Linked "[(exported ''P'', VPtr (Some Inner))]" ?m] f
  show ?thesis
    by (auto simp: Linked_def)
qed

text \<open>
  C4 as stated fails: \<open>Flatten\<close> returns a map for a pointer to
  \<^verbatim>\<open>Shape{Point{1, 2}, "red"}\<close>, and panics in \<^verbatim>\<open>Addr\<close> for the same composite by
  value or boxed, whose fields are not addressable.
\<close>

theorem by_value_counterexample:
  "Flatten (VPtr (Some Shape)) =
     Inr [''pt.X'' \<mapsto> [ElemStep, FieldStep 0, FieldStep 0],
          ''pt.Y'' \<mapsto> [ElemStep, FieldStep 0, FieldStep 1],
          ''Color'' \<mapsto> [ElemStep, FieldStep 1]]
   \<and> Flatten Shape = Inl AddrOfUnaddressable
   \<and> Flatten (VIface (Some Shape)) = Inl AddrOfUnaddressable"
  by (simp add: eval_simps example_defs)

section \<open>Errors\<close>

text \<open>
  C3, as the code has it. \<open>Flatten\<close> panics with "must be called with a struct
  type" exactly when its input, after following pointers, is not a struct; an
  interface behind a pointer is not unwrapped, and a nil pointer or a nil input
  leaves no value. For an input that is a pointer and reaches a struct, \<open>Flatten\<close>
  returns a map whatever the tags, nil pointers, nil interfaces and composites
  without accessible fields in it, as long as each field with the
  \<^verbatim>\<open>omitempty\<close> option is exported and of interface or comparable type, and no
  interface holds a struct by value.
\<close>

theorem only_kind_error_on_traversable:
  "(Flatten v = Inl MustBeStruct \<longleftrightarrow> Kind (dereferenced (ValueOf v)) \<noteq> Struct)
   \<and> (Kind (dereferenced (ValueOf (VPtr (Some x)))) = Struct \<and> traversable x \<longrightarrow>
        (\<exists>m. Flatten (VPtr (Some x)) = Inr m))"
proof -
  have "Flatten v = Inl MustBeStruct \<longleftrightarrow> Kind (dereferenced (ValueOf v)) \<noteq> Struct"
    using entries_never_MustBeStruct [of "dereferenced (ValueOf v)" "[]"]
    by (auto simp: Flatten_entries split: sum.splits)
  moreover have "\<exists>m. Flatten (VPtr (Some x)) = Inr m"
    if k: "Kind (dereferenced (ValueOf (VPtr (Some x)))) = Struct" and t: "traversable x"
  proof -
    let ?e = "Elem (ValueOf (VPtr (Some x)))"
    have d: "dereferenced (ValueOf (VPtr (Some x))) = dereferenced ?e"
      by (simp add: dereferenced_Ptr Kind_def)
    have "good ?e"
      using t by (simp add: good_def Elem_def)
    from good_dereferenced [OF this] k d have "good (dereferenced (ValueOf (VPtr (Some x))))"
      by simp
    from good_entries [OF this k, of "[]"] k show ?thesis
      by (auto simp: Flatten_entries)
  qed
  ultimately show ?thesis by blast
qed

text \<open>\<^verbatim>\<open>Flatten(42)\<close>, \<^verbatim>\<open>Flatten("x")\<close> and a pointer to a pointer to \<^verbatim>\<open>Holder{nil}\<close>.\<close>

theorem only_kind_error_on_traversable_witness:
  "Flatten (VInt 42) = Inl MustBeStruct \<and> Flatten (VString ''x'') = Inl MustBeStruct
   \<and> (\<exists>m. Flatten (VPtr (Some (VPtr (Some Holder)))) = Inr m)"
proof -
  have 1: "Kind (dereferenced (ValueOf (VInt 42))) \<noteq> Struct"
    by (simp add: dereferenced_other Kind_def)
  have 2: "Kind (dereferenced (ValueOf (VString ''x''))) \<noteq> Struct"
    by (simp add: dereferenced_other Kind_def)
  have 3: "Kind (dereferenced (ValueOf (VPtr (Some (VPtr (Some Holder)))))) = Struct"
    by (simp add: dereferenced_Ptr dereferenced_other Kind_def Elem_def Holder_def)
  have 4: "traversable (VPtr (Some Holder))"
    by (simp add: example_defs jsonOpts_def Get_def SplitN2_def)
  from only_kind_error_on_traversable [of "VInt 42" "VPtr (Some Holder)"]
    only_kind_error_on_traversable [of "VString ''x''" "VPtr (Some Holder)"] 1 2 3 4
  show ?thesis by blast
qed

text \<open>
  C3 as stated fails: the composite \<^verbatim>\<open>Shape{Point{1, 2}, "red"}\<close> passed by value
  makes \<^verbatim>\<open>Addr\<close> panic, which is not the error for an input that is no
  composite; and a pointer to an interface that holds the composite is rejected
  although the chain of indirections ends in a composite.
\<close>

theorem other_errors_counterexample:
  "Kind (dereferenced (ValueOf Shape)) = Struct \<and> Flatten Shape = Inl AddrOfUnaddressable
   \<and> Flatten (VPtr (Some (VIface (Some Shape)))) = Inl MustBeStruct"
  by (simp add: eval_simps example_defs dereferenced_other)

text \<open>
  Outside the values above, \<^verbatim>\<open>isEmptyValue\<close> panics on a field of slice type with
  the \<^verbatim>\<open>omitempty\<close> option.
\<close>

lemma omitempty_panics:
  "Flatten (VPtr (Some Post)) = Inl UncomparableType"
  by (simp add: eval_simps example_defs)

section \<open>What the key set depends on\<close>

text \<open>
  C5, as the code has it. For two values of one type, with the same tags: when the
  same fields satisfy omit-if-empty in both and the same pointers and interfaces
  are nil in both (interfaces that are not nil holding values of one type),
  \<open>Flatten\<close> gives both the same key set, or fails on both in the same way.
\<close>

theorem keys_depend_on_shape:
  "sameType a b \<and> sameOmitted a b \<and> sameNil a b \<longrightarrow> keysOf (Flatten a) = keysOf (Flatten b)"
  using alike_Flatten [of a b] by (simp add: alike_def)

text \<open>\<^verbatim>\<open>Shape{Point{1, 2}, "red"}\<close> and \<^verbatim>\<open>Shape{Point{5, 0}, ""}\<close>.\<close>

theorem keys_depend_on_shape_witness:
  "keysOf (Flatten (VPtr (Some Shape))) = Inr {''pt.X'', ''pt.Y'', ''Color''}
   \<and> keysOf (Flatten (VPtr (Some
        (VStruct [(\<lparr>Name = ''Point'', PkgPath = [], Anonymous = True, Tag = [(''json'', ''pt'')]\<rparr>,
                   VStruct [(exported ''X'', VInt 5), (exported ''Y'', VInt 0)]),
                  (exported ''Color'', VString [])])))) = Inr {''pt.X'', ''pt.Y'', ''Color''}"
proof -
  let ?b = "VPtr (Some
        (VStruct [(\<lparr>Name = ''Point'', PkgPath = [], Anonymous = True, Tag = [(''json'', ''pt'')]\<rparr>,
                   VStruct [(exported ''X'', VInt 5), (exported ''Y'', VInt 0)]),
                  (exported ''Color'', VString [])]))"
  have s: "sameType (VPtr (Some Shape)) ?b \<and> sameOmitted (VPtr (Some Shape)) ?b
      \<and> sameNil (VPtr (Some Shape)) ?b"
    by (simp add: example_defs omits_def jsonOpts_def Get_def SplitN2_def)
  have k: "keysOf (Flatten (VPtr (Some Shape))) = Inr {''pt.X'', ''pt.Y'', ''Color''}"
    by (auto simp: keysOf_def eval_simps example_defs)
  from keys_depend_on_shape [of "VPtr (Some Shape)" ?b] s k show ?thesis
    by simp
qed

text \<open>
  C5 as stated fails: \<^verbatim>\<open>Holder{nil}\<close> and \<^verbatim>\<open>Linked{&Inner{1}}\<close> have a field \<^verbatim>\<open>P\<close>
  with the same descriptor and no field with \<^verbatim>\<open>omitempty\<close>; the nil pointer is
  registered at \<^verbatim>\<open>P\<close>, the other is flattened into \<^verbatim>\<open>P.N\<close>.
\<close>

theorem nil_pointer_changes_keys_counterexample:
  "sameType (VPtr (Some Holder)) (VPtr (Some Linked))
   \<and> sameOmitted (VPtr (Some Holder)) (VPtr (Some Linked))
   \<and> keysOf (Flatten (VPtr (Some Holder))) = Inr {''P''}
   \<and> keysOf (Flatten (VPtr (Some Linked))) = Inr {''P.N''}"
  by (simp add: keysOf_def eval_simps example_defs omits_def jsonOpts_def)

section \<open>Keys and paths\<close>

text \<open>
  C2, as the code has it. Let \<open>Flatten\<close> return a map for an input in which no
  embedded field without a tag name lies inside a named field. Then every key of
  the map is the key of at least one registered field: a traversed field,
  reached from the top-level composite through traversed fields, whose
  extracted value is no composite or a composite that contributes no entries.
  The key consists of the resolved names of the named fields on the way to that
  field, in nesting order, each followed by a dot, and of the resolved key of
  the field itself, which is empty for a promotion group; when none of them
  contains a dot, they are the dot-separated segments of the key. The map refers
  to the storage of such a field. Several fields can have the same key.
\<close>

theorem keys_are_paths_of_registered_fields:
  assumes "Flatten v = Inr m" and "noPromotionUnder False v" and "k \<in> dom m"
  shows "\<exists>names key c. registeredAt (dereferenced (ValueOf v)) names key c
           \<and> k = keyOf names key \<and> m k = Some (at c)
           \<and> ((\<forall>n \<in> set (names @ [key]). CHR ''.'' \<notin> set n) \<longrightarrow>
                segments k = names @ [key])"
proof -
  let ?root = "dereferenced (ValueOf v)"
  from assms(1) obtain es where es: "entries ?root [] = Inr es" and m: "m = store es Map.empty"
    by (auto simp: Flatten_entries split: if_splits sum.splits)
  from assms(3) obtain l where l: "m k = Some l" by auto
  with m store_lookup [of es Map.empty k l] have kl: "(k, l) \<in> set es" by simp
  have np: "\<forall>x. held ?root = Some x \<longrightarrow> noPromotionUnder ([] \<noteq> ([] :: string list)) x"
    using noPromotionUnder_dereferenced [OF noPromotionUnder_ValueOf [OF assms(2)]] by simp
  from entries_registered [OF reach_root np _ kl] es obtain names key c where
    r: "registeredAt ?root names key c" "k = keyOf names key" "l = at c"
    by auto
  have "segments k = names @ [key]" if "\<forall>n \<in> set (names @ [key]). CHR ''.'' \<notin> set n"
    using that r(2) by (simp add: segments_keyOf)
  with r l show ?thesis
    by blast
qed

text \<open>The key \<^verbatim>\<open>pt.X\<close> of \<^verbatim>\<open>Flatten(&Shape{Point{1, 2}, "red"})\<close>.\<close>

theorem keys_are_paths_of_registered_fields_witness:
  "\<exists>names key c. registeredAt (dereferenced (ValueOf (VPtr (Some Shape)))) names key c
       \<and> ''pt.X'' = keyOf names key
       \<and> [''pt.X'' \<mapsto> [ElemStep, FieldStep 0, FieldStep 0],
           ''pt.Y'' \<mapsto> [ElemStep, FieldStep 0, FieldStep 1],
           ''Color'' \<mapsto> [ElemStep, FieldStep 1]] ''pt.X'' = Some (at c)"
proof -
  let ?m = "[''pt.X'' \<mapsto> [ElemStep, FieldStep 0, FieldStep 0],
             ''pt.Y'' \<mapsto> [ElemStep, FieldStep 0, FieldStep 1],
             ''Color'' \<mapsto> [ElemStep, FieldStep 1]]"
  have f: "Flatten (VPtr (Some Shape)) = Inr ?m"
    by (simp add: eval_simps example_defs)
  have n: "noPromotionUnder False (VPtr (Some Shape))"
    by (simp add: example_defs promotable_def jsonName_def Get_def SplitN2_def)
  have k: "''pt.X'' \<in> dom ?m"
    by simp
  from keys_are_paths_of_registered_fields [OF f n k] show ?thesis
    by blast
qed

text \<open>
  C2 as stated fails. In \<^verbatim>\<open>Flatten(&Twice{1, 2})\<close> the one key \<^verbatim>\<open>x\<close> is the key of
  two reachable, accessible leaf fields, \<^verbatim>\<open>A\<close> and \<^verbatim>\<open>B\<close>; the map refers to the
  second. In \<^verbatim>\<open>Flatten(&Dotted{1})\<close> the only key is that of the leaf field \<^verbatim>\<open>A\<close>,
  whose resolved name is \<^verbatim>\<open>a.b\<close>, and the segments of the key are \<^verbatim>\<open>a\<close> and
  \<^verbatim>\<open>b\<close>.
\<close>

theorem colliding_names_counterexample:
  "Flatten (VPtr (Some Twice)) = Inr [''x'' \<mapsto> [ElemStep, FieldStep 1]]
   \<and> registeredAt \<lparr>held = Some Twice, at = [ElemStep], flagAddr = True, flagRO = False\<rparr> [] ''x''
        \<lparr>held = Some (VInt 1), at = [ElemStep, FieldStep 0], flagAddr = True, flagRO = False\<rparr>
   \<and> registeredAt \<lparr>held = Some Twice, at = [ElemStep], flagAddr = True, flagRO = False\<rparr> [] ''x''
        \<lparr>held = Some (VInt 2), at = [ElemStep, FieldStep 1], flagAddr = True, flagRO = False\<rparr>
   \<and> Flatten (VPtr (Some Dotted)) = Inr [''a.b'' \<mapsto> [ElemStep, FieldStep 0]]
   \<and> registeredAt \<lparr>held = Some Dotted, at = [ElemStep], flagAddr = True, flagRO = False\<rparr> [] ''a.b''
        \<lparr>held = Some (VInt 1), at = [ElemStep, FieldStep 0], flagAddr = True, flagRO = False\<rparr>
   \<and> segments ''a.b'' = [''a'', ''b'']"
proof -
  let ?R = "\<lparr>held = Some Twice, at = [ElemStep], flagAddr = True, flagRO = False\<rparr>"
  let ?D = "\<lparr>held = Some Dotted, at = [ElemStep], flagAddr = True, flagRO = False\<rparr>"
  let ?F0 = "\<lparr>held = Some (VInt 1), at = [ElemStep, FieldStep 0], flagAddr = True, flagRO = False\<rparr>"
  let ?F1 = "\<lparr>held = Some (VInt 2), at = [ElemStep, FieldStep 1], flagAddr = True, flagRO = False\<rparr>"
  have f: "Flatten (VPtr (Some Twice)) = Inr [''x'' \<mapsto> [ElemStep, FieldStep 1]]"
    "Flatten (VPtr (Some Dotted)) = Inr [''a.b'' \<mapsto> [ElemStep, FieldStep 0]]"
    by (simp_all add: eval_simps example_defs)
  have a: "accessible ?R 0 ''x'' False" "accessible ?R 1 ''x'' False"
    "accessible ?D 0 ''a.b'' False"
    by (simp_all add: accessible_def eval_simps example_defs)
  have e: "?F0 = extractValue (Field ?R 0) (Field ?R 0)"
    "?F1 = extractValue (Field ?R 1) (Field ?R 1)"
    "?F0 = extractValue (Field ?D 0) (Field ?D 0)"
    by (simp_all add: eval_simps example_defs)
  have k: "Kind ?F0 \<noteq> Struct" "Kind ?F1 \<noteq> Struct"
    by (simp_all add: Kind_def)
  have r: "registeredAt ?R [] ''x'' ?F0" "registeredAt ?R [] ''x'' ?F1"
    "registeredAt ?D [] ''a.b'' ?F0"
    unfolding registeredAt_def
    using reach_root [of ?R] reach_root [of ?D] a e k by blast+
  have s: "segments ''a.b'' = [''a'', ''b'']"
    by (simp add: segments_def)
  from f r s show ?thesis
    by simp
qed

end
